theory Spec2Isabelle
  imports Complex_Main
begin

section \<open>Python string primitives used by the scanner core\<close>

text \<open>
  Python strings are modelled as \<open>string\<close>: a character is a code point below 256.
  On that range the decimal digits matched by \<open>\d\<close> and accepted by \<open>int()\<close> are
  exactly \<open>0\<close>..\<open>9\<close>. The white space removed by \<open>str.strip()\<close> is
  \<open>is_space\<close>; \<open>int()\<close> skips less: the separators \<open>0x1C\<close>..\<open>0x1F\<close> are
  white space for \<open>strip\<close> but make \<open>int()\<close> raise.
\<close>

definition is_digit :: "char \<Rightarrow> bool" where
  "is_digit c = (48 \<le> (of_char c :: nat) \<and> (of_char c :: nat) \<le> 57)"

definition digit_val :: "char \<Rightarrow> nat" where
  "digit_val c = of_char c - 48"

definition digit_char :: "nat \<Rightarrow> char" where
  "digit_char d = char_of (48 + d)"

definition is_space :: "char \<Rightarrow> bool" where
  "is_space c = (let n = (of_char c :: nat) in
     (9 \<le> n \<and> n \<le> 13) \<or> (28 \<le> n \<and> n \<le> 32) \<or> n = 133 \<or> n = 160)"

text \<open>\<open>s.strip()\<close>\<close>

definition strip :: "string \<Rightarrow> string" where
  "strip s = rev (dropWhile is_space (rev (dropWhile is_space s)))"

text \<open>\<open>s.split(sep)\<close> for a one-character separator: never returns the empty list.\<close>

fun split_on :: "char \<Rightarrow> string \<Rightarrow> string list" where
  "split_on sep [] = [[]]"
| "split_on sep (c # cs) =
     (if c = sep then [] # split_on sep cs
      else (case split_on sep cs of
              [] \<Rightarrow> [[c]]
            | p # ps \<Rightarrow> (c # p) # ps))"

text \<open>
  The digits of a decimal literal after its first digit: single underscores are allowed
  between digits. \<open>None\<close> is Python's \<open>ValueError\<close>.
\<close>

fun digs :: "nat \<Rightarrow> string \<Rightarrow> nat option" where
  "digs acc [] = Some acc"
| "digs acc (c # cs) =
     (if is_digit c then digs (acc * 10 + digit_val c) cs
      else if c = CHR ''_'' then
        (case cs of
           [] \<Rightarrow> None
         | d # ds \<Rightarrow> if is_digit d then digs (acc * 10 + digit_val d) ds else None)
      else None)"

definition dec_literal :: "string \<Rightarrow> nat option" where
  "dec_literal s =
     (case s of
        [] \<Rightarrow> None
      | c # cs \<Rightarrow> if is_digit c then digs (digit_val c) cs else None)"

text \<open>
  \<open>int(s)\<close> in base 10: surrounding white space, an optional sign, a decimal literal.
  The white space \<open>int()\<close> skips is tab to carriage return, the blank, and the two
  spaces \<open>0x85\<close> and \<open>0xA0\<close>. A literal of more than \<open>max_str_digits\<close> digits
  (the interpreter's default limit) raises \<open>ValueError\<close> as a malformed one does.
\<close>

definition int_space :: "char \<Rightarrow> bool" where
  "int_space c = (let n = (of_char c :: nat) in
     (9 \<le> n \<and> n \<le> 13) \<or> n = 32 \<or> n = 133 \<or> n = 160)"

definition int_strip :: "string \<Rightarrow> string" where
  "int_strip s = rev (dropWhile int_space (rev (dropWhile int_space s)))"

definition max_str_digits :: nat where
  "max_str_digits = 4300"

definition py_int :: "string \<Rightarrow> int option" where
  "py_int s =
     (case int_strip s of
        [] \<Rightarrow> None
      | c # cs \<Rightarrow>
          (let literal = (if c = CHR ''-'' \<or> c = CHR ''+'' then cs else c # cs)
           in if max_str_digits < length (filter is_digit literal) then None
              else if c = CHR ''-'' then map_option (\<lambda>n. - int n) (dec_literal literal)
              else map_option int (dec_literal literal)))"

text \<open>\<open>str(n)\<close> for an integer.\<close>

function str_nat :: "nat \<Rightarrow> string" where
  "str_nat n = (if n < 10 then [digit_char n] else str_nat (n div 10) @ [digit_char (n mod 10)])"
  by pat_completeness auto
termination
  by (relation "measure (\<lambda>n. n)") auto

declare str_nat.simps [simp del]

definition str_int :: "int \<Rightarrow> string" where
  "str_int i = (if i < 0 then CHR ''-'' # str_nat (nat (- i)) else str_nat (nat i))"

section \<open>Validation functions\<close>

text \<open>
  The pattern \<open>^(\d{1,3}\.){3}\d{1,3}$\<close> under \<open>re.match\<close>. A run of digits is followed
  by a dot or by the end, neither of which is a digit, so the greedy run is the only
  candidate for \<open>\d{1,3}\<close>. Python's \<open>$\<close> matches at the end of the string and also just
  before a line feed that ends the string.
\<close>

fun match_octets :: "nat \<Rightarrow> string \<Rightarrow> bool" where
  "match_octets 0 s =
     (let d = takeWhile is_digit s; r = dropWhile is_digit s
      in 1 \<le> length d \<and> length d \<le> 3 \<and> (r = [] \<or> r = [CHR 0x0A]))"
| "match_octets (Suc n) s =
     (let d = takeWhile is_digit s; r = dropWhile is_digit s
      in 1 \<le> length d \<and> length d \<le> 3 \<and>
         (case r of [] \<Rightarrow> False | c # r' \<Rightarrow> c = CHR ''.'' \<and> match_octets n r'))"

definition re_match_ip :: "string \<Rightarrow> bool" where
  "re_match_ip ip = match_octets 3 ip"

text \<open>
  \<open>validate_ip\<close>. \<open>int(p)\<close> cannot raise on a part of a string that matched the pattern
  (lemma \<open>re_match_ip_parts_int\<close>), so the \<open>None\<close> branch below is never taken.
\<close>

definition octet_ok :: "string \<Rightarrow> bool" where
  "octet_ok p = (case py_int p of None \<Rightarrow> False | Some n \<Rightarrow> 0 \<le> n \<and> n \<le> 255)"

definition validate_ip :: "string \<Rightarrow> bool" where
  "validate_ip ip =
     (if \<not> re_match_ip ip then False
      else list_all octet_ok (split_on CHR ''.'' ip))"

definition validate_port :: "int \<Rightarrow> bool" where
  "validate_port port = (1 \<le> port \<and> port \<le> 65535)"

definition validate_threads :: "int \<Rightarrow> bool" where
  "validate_threads threads = (1 \<le> threads \<and> threads \<le> 200)"

section \<open>IP address generator\<close>

text \<open>\<open>ip_to_tuple\<close>: the parts as integers, or \<open>(0, 0, 0, 0)\<close> when a conversion raises.\<close>

definition ip_to_tuple :: "string \<Rightarrow> int list" where
  "ip_to_tuple ip =
     (let ps = map py_int (split_on CHR ''.'' ip)
      in if list_all (\<lambda>p. p \<noteq> None) ps then map the ps else [0, 0, 0, 0])"

type_synonym quad = "int \<times> int \<times> int \<times> int"

text \<open>Python's tuple comparison \<open>tuple(current) <= end\<close> on four components.\<close>

fun tuple_le :: "quad \<Rightarrow> quad \<Rightarrow> bool" where
  "tuple_le (a, b, c, d) (a', b', c', d') =
     (if a \<noteq> a' then a < a'
      else if b \<noteq> b' then b < b'
      else if c \<noteq> c' then c < c'
      else d \<le> d')"

text \<open>The increment with carry at the end of the loop body.\<close>

fun increment :: "quad \<Rightarrow> quad" where
  "increment (a, b, c, d) =
     (if d + 1 > 255 then
        (if c + 1 > 255 then
           (if b + 1 > 255 then (a + 1, 0, 0, 0) else (a, b + 1, 0, 0))
         else (a, b, c + 1, 0))
      else (a, b, c, d + 1))"

fun ip_str :: "quad \<Rightarrow> string" where
  "ip_str (a, b, c, d) =
     str_int a @ ''.'' @ str_int b @ ''.'' @ str_int c @ ''.'' @ str_int d"

fun first_octet :: "quad \<Rightarrow> int" where "first_octet (a, b, c, d) = a"
fun second_octet :: "quad \<Rightarrow> int" where "second_octet (a, b, c, d) = b"
fun third_octet :: "quad \<Rightarrow> int" where "third_octet (a, b, c, d) = c"
fun fourth_octet :: "quad \<Rightarrow> int" where "fourth_octet (a, b, c, d) = d"

text \<open>The \<open>while tuple(current) <= end\<close> loop, returning the addresses it appends.\<close>

function ip_loop :: "quad \<Rightarrow> quad \<Rightarrow> string list" where
  "ip_loop current end =
     (if tuple_le current end then ip_str current # ip_loop (increment current) end
      else [])"
  by pat_completeness auto
termination
  by (relation "measures [\<lambda>(cur, e). nat (first_octet e + 1 - first_octet cur),
                          \<lambda>(cur, e). nat (256 - second_octet cur),
                          \<lambda>(cur, e). nat (256 - third_octet cur),
                          \<lambda>(cur, e). nat (256 - fourth_octet cur)]")
     (auto split: if_splits)

declare ip_loop.simps [simp del]

text \<open>
  \<open>generate_ip_range\<close>. After validation both tuples have four components (lemma
  \<open>validate_ip_tuple\<close>), so the last branch is never taken.
\<close>

definition generate_ip_range :: "string \<Rightarrow> string \<Rightarrow> string list" where
  "generate_ip_range ip_start ip_end =
     (if \<not> validate_ip ip_start \<or> \<not> validate_ip ip_end then []
      else (case (ip_to_tuple ip_start, ip_to_tuple ip_end) of
              ([a, b, c, d], [a', b', c', d']) \<Rightarrow> ip_loop (a, b, c, d) (a', b', c', d')
            | _ \<Rightarrow> []))"

subsection \<open>Numeric reading of addresses\<close>

text \<open>
  The 32-bit value of a tuple of octets, and of an address string as \<open>ip_to_tuple\<close>
  reads it. \<open>valid_quad\<close> holds of the tuples of validated addresses;
  \<open>carry_quad\<close> also admits the value \<open>(256, 0, 0, 0)\<close> that the increment
  produces after \<open>255.255.255.255\<close>.
\<close>

definition octet :: "int \<Rightarrow> bool" where
  "octet x = (0 \<le> x \<and> x \<le> 255)"

fun ip_num :: "quad \<Rightarrow> int" where
  "ip_num (a, b, c, d) = ((a * 256 + b) * 256 + c) * 256 + d"

definition ip_value :: "string \<Rightarrow> int" where
  "ip_value ip = (case ip_to_tuple ip of [a, b, c, d] \<Rightarrow> ip_num (a, b, c, d) | _ \<Rightarrow> 0)"

fun valid_quad :: "quad \<Rightarrow> bool" where
  "valid_quad (a, b, c, d) = (octet a \<and> octet b \<and> octet c \<and> octet d)"

fun carry_quad :: "quad \<Rightarrow> bool" where
  "carry_quad (a, b, c, d) = (0 \<le> a \<and> a \<le> 256 \<and> octet b \<and> octet c \<and> octet d)"

section \<open>Port specification\<close>

text \<open>
  The body of the \<open>for p_str in port_string.split(',')\<close> loop for one token: the ports
  the token adds to the set, or \<open>None\<close> when an \<open>int()\<close> conversion raises
  \<open>ValueError\<close>.
\<close>

definition parse_token :: "string \<Rightarrow> int set option" where
  "parse_token tok =
     (let p_str = strip tok
      in if CHR ''-'' \<in> set p_str then
           (let parts = split_on CHR ''-'' p_str
            in if length parts = 2 then
                 (case py_int (parts ! 0) of
                    None \<Rightarrow> None
                  | Some p1 \<Rightarrow>
                      (case py_int (parts ! 1) of
                         None \<Rightarrow> None
                       | Some p2 \<Rightarrow>
                           if validate_port p1 \<and> validate_port p2 \<and> p1 \<le> p2
                           then Some {p1..p2} else Some {}))
               else Some {})
         else (case py_int p_str of
                 None \<Rightarrow> None
               | Some p \<Rightarrow> if validate_port p then Some {p} else Some {}))"

text \<open>
  The loop inside \<open>try ... except ValueError\<close>: the first token that raises ends the
  loop; the flag tells whether the handler ran (and logged its warning).
\<close>

fun parse_tokens :: "string list \<Rightarrow> int set \<Rightarrow> int set \<times> bool" where
  "parse_tokens [] ports = (ports, False)"
| "parse_tokens (t # ts) ports =
     (case parse_token t of
        None \<Rightarrow> (ports, True)
      | Some ps \<Rightarrow> parse_tokens ts (ports \<union> ps))"

definition port_range :: "int \<Rightarrow> int \<Rightarrow> int set" where
  "port_range port_start port_end =
     (if validate_port port_start \<and> validate_port port_end then {port_start..port_end} else {})"

definition parse_ports :: "string \<Rightarrow> int \<Rightarrow> int \<Rightarrow> int list" where
  "parse_ports port_string port_start port_end =
     sorted_list_of_set
       (fst (parse_tokens (split_on CHR '','' port_string) (port_range port_start port_end)))"

definition parse_ports_warns :: "string \<Rightarrow> bool" where
  "parse_ports_warns port_string = snd (parse_tokens (split_on CHR '','' port_string) {})"

section \<open>Data classes\<close>

text \<open>
  A \<open>float\<close> is modelled by the rational it denotes (the code only compares and
  subtracts them); how a float is printed is left to the environment.
\<close>

record ScanSettings =
  ip_start :: string
  ip_end :: string
  port_start :: int
  port_end :: int
  custom_ports :: string
  timeout :: rat
  threads :: int
  retry_count :: int
  scan_adb :: bool
  scan_ssh :: bool
  scan_telnet :: bool
  scan_custom :: bool
  skip_ping :: bool
  use_async :: bool
  profile :: string

text \<open>The field defaults of the data class.\<close>

definition default_settings :: ScanSettings where
  "default_settings =
     \<lparr>ip_start = ''192.168.1.1'', ip_end = ''192.168.1.255'',
      port_start = 5037, port_end = 5037, custom_ports = ''5037,5555,22,23'',
      timeout = 1, threads = 50, retry_count = 2,
      scan_adb = True, scan_ssh = True, scan_telnet = True, scan_custom = False,
      skip_ping = False, use_async = True, profile = ''balanced''\<rparr>"

text \<open>\<open>ScanSettings.validate\<close>; \<open>repr_float\<close> prints the timeout in the last message.\<close>

definition validate :: "(rat \<Rightarrow> string) \<Rightarrow> ScanSettings \<Rightarrow> bool \<times> string" where
  "validate repr_float st =
     (if \<not> validate_ip (ip_start st) then (False, ''Invalid IP start: '' @ ip_start st)
      else if \<not> validate_ip (ip_end st) then (False, ''Invalid IP end: '' @ ip_end st)
      else if \<not> validate_port (port_start st)
        then (False, ''Invalid port start: '' @ str_int (port_start st))
      else if \<not> validate_port (port_end st)
        then (False, ''Invalid port end: '' @ str_int (port_end st))
      else if port_start st > port_end st
        then (False, ''Port start cannot be greater than port end'')
      else if \<not> validate_threads (threads st)
        then (False, ''Invalid threads (1-200): '' @ str_int (threads st))
      else if \<not> (1 / 10 \<le> timeout st \<and> timeout st \<le> 10)
        then (False, ''Invalid timeout (0.1-10.0): '' @ repr_float (timeout st))
      else (True, ''OK''))"

record DeviceInfo =
  ip :: string
  port :: int
  device_type :: string
  status :: string
  device_id :: string
  manufacturer :: string
  model :: string
  version :: string
  timestamp :: string

record ScanResult =
  devices :: "DeviceInfo list"
  total_scanned :: int
  total_found :: int
  scan_time :: rat
  settings :: ScanSettings
  result_timestamp :: string

section \<open>The scanner\<close>

datatype level = DEBUG | INFO | WARNING | ERROR

text \<open>A call of the callback: message, progress, devices.\<close>

datatype notification = Notification string "rat option" "int option"

text \<open>
  The scanner object. \<open>callback\<close> tells whether a callback is registered;
  \<open>delivered\<close> is the sequence of calls the callback has received and \<open>logged\<close> the
  lines sent to the module logger, both kept here as traces.
\<close>

record ADBScanner =
  is_scanning :: bool
  devices_found :: "(string \<times> DeviceInfo) list"
  callback :: bool
  scan_result :: ScanResult
  delivered :: "notification list"
  logged :: "(level \<times> string) list"

text \<open>\<open>ADBScanner.__init__\<close>; the argument is the time stamp of the empty result.\<close>

definition init_scanner :: "string \<Rightarrow> ADBScanner" where
  "init_scanner ts =
     \<lparr>is_scanning = False, devices_found = [], callback = False,
      scan_result = \<lparr>devices = [], total_scanned = 0, total_found = 0, scan_time = 0,
                     settings = default_settings, result_timestamp = ts\<rparr>,
      delivered = [], logged = []\<rparr>"

definition set_callback :: "ADBScanner \<Rightarrow> ADBScanner" where
  "set_callback s = s\<lparr>callback := True\<rparr>"

definition notify :: "string \<Rightarrow> rat option \<Rightarrow> int option \<Rightarrow> ADBScanner \<Rightarrow> ADBScanner" where
  "notify message progress devs s =
     (if callback s then s\<lparr>delivered := delivered s @ [Notification message progress devs]\<rparr>
      else s)"

definition log :: "level \<Rightarrow> string \<Rightarrow> ADBScanner \<Rightarrow> ADBScanner" where
  "log lv message s = s\<lparr>logged := logged s @ [(lv, message)]\<rparr>"

subsection \<open>Probes\<close>

text \<open>
  What the blocking probes of one unit of work observe is given by the environment:
  the exit of \<open>ping\<close>, the connect with the configured timeout, the run of
  \<open>adb connect\<close> (whether its output contains \<open>connected\<close>, and its return code; or
  that it raised), the three later connects of \<open>_identify_device\<close>, and the time
  stamp of the record.
\<close>

datatype adb_result = AdbRaised | AdbRan bool int

record probes =
  ping :: bool
  connect :: bool
  adb :: adb_result
  ssh_connect :: bool
  telnet_connect :: bool
  unknown_connect :: bool
  created :: string

definition new_device :: "probes \<Rightarrow> string \<Rightarrow> int \<Rightarrow> string \<Rightarrow> DeviceInfo" where
  "new_device pr i p ty =
     \<lparr>ip = i, port = p, device_type = ty, status = ''online'', device_id = [],
      manufacturer = [], model = [], version = [], timestamp = created pr\<rparr>"

definition identify_device :: "probes \<Rightarrow> string \<Rightarrow> int \<Rightarrow> DeviceInfo option" where
  "identify_device pr i p =
     (if (p = 5037 \<or> p = 5555) \<and>
         (case adb pr of AdbRaised \<Rightarrow> False | AdbRan marker rc \<Rightarrow> marker \<or> rc = 0)
      then Some (new_device pr i p ''ADB'')
      else if p = 22 \<and> ssh_connect pr then Some (new_device pr i p ''SSH'')
      else if p = 23 \<and> telnet_connect pr then Some (new_device pr i p ''Telnet'')
      else if unknown_connect pr then Some (new_device pr i p ''Unknown'')
      else None)"

definition scan_single_target :: "probes \<Rightarrow> string \<Rightarrow> int \<Rightarrow> ScanSettings \<Rightarrow> DeviceInfo option" where
  "scan_single_target pr i p st =
     (if \<not> skip_ping st \<and> \<not> ping pr then None
      else if \<not> connect pr then None
      else identify_device pr i p)"

subsection \<open>The environment of a scan\<close>

text \<open>
  A submitted unit either runs its probes or makes \<open>future.result\<close> raise.
  \<open>completions\<close> is the sequence in which \<open>as_completed\<close> yields the submitted units
  (in an execution, a permutation of the targets). \<open>stop_seen k\<close> tells whether a
  concurrent \<open>stop_scan\<close> has cleared the flag when the loop tests it before taking
  its \<open>k\<close>-th result. \<open>pool_error\<close> is an exception raised while the units are
  submitted to the pool.
\<close>

datatype future = Runs probes | Raises string

record env =
  repr_float :: "rat \<Rightarrow> string"
  format_1f :: "rat \<Rightarrow> string"
  clock_start :: rat
  clock_end :: rat
  now_iso :: string
  pool_error :: "string option"
  completions :: "(string \<times> int) list \<Rightarrow> ((string \<times> int) \<times> future) list"
  stop_seen :: "nat \<Rightarrow> bool"

datatype outcome = Returned "DeviceInfo option" | Raised string

definition future_result :: "ScanSettings \<Rightarrow> (string \<times> int) \<times> future \<Rightarrow> outcome" where
  "future_result st u =
     (case u of
        ((i, p), Runs pr) \<Rightarrow> Returned (scan_single_target pr i p st)
      | ((i, p), Raises msg) \<Rightarrow> Raised msg)"

text \<open>\<open>d[k] = v\<close> on a dictionary in insertion order.\<close>

fun dict_set :: "'k \<Rightarrow> 'v \<Rightarrow> ('k \<times> 'v) list \<Rightarrow> ('k \<times> 'v) list" where
  "dict_set k v [] = [(k, v)]"
| "dict_set k v ((k', v') # kvs) =
     (if k' = k then (k, v) # kvs else (k', v') # dict_set k v kvs)"

definition device_key :: "DeviceInfo \<Rightarrow> string" where
  "device_key device = ip device @ '':'' @ str_int (port device)"

text \<open>The body of the \<open>for future in as_completed(futures)\<close> loop after the stop test.\<close>

definition handle_result :: "int \<Rightarrow> outcome \<Rightarrow> int \<times> ADBScanner \<Rightarrow> int \<times> ADBScanner" where
  "handle_result total_targets out acc =
     (case acc of (scanned, s) \<Rightarrow>
        (case out of
           Raised msg \<Rightarrow> (scanned + 1, log ERROR (''Scan error: '' @ msg) s)
         | Returned None \<Rightarrow>
             (let scanned = scanned + 1
              in if scanned mod 10 = 0
                 then (scanned,
                       notify (''[PROGRESS] '' @ str_int scanned @ ''/'' @ str_int total_targets)
                         (Some (of_int scanned / of_int total_targets * 100)) None s)
                 else (scanned, s))
         | Returned (Some device) \<Rightarrow>
             (let scanned = scanned + 1;
                  key = device_key device;
                  s = s\<lparr>devices_found := dict_set key device (devices_found s)\<rparr>;
                  s = notify (''[FOUND] '' @ ip device @ '':'' @ str_int (port device)
                                @ '' ('' @ device_type device @ '')'')
                        (Some (of_int scanned / of_int total_targets * 100))
                        (Some (int (length (devices_found s)))) s
              in (scanned, log INFO (''Device: '' @ key @ '' ('' @ device_type device @ '')'') s))))"

fun collect :: "(nat \<Rightarrow> bool) \<Rightarrow> int \<Rightarrow> nat \<Rightarrow> outcome list \<Rightarrow> int \<times> ADBScanner \<Rightarrow> int \<times> ADBScanner" where
  "collect stop total_targets k [] acc = acc"
| "collect stop total_targets k (out # outs) acc =
     (if stop k then acc
      else collect stop total_targets (Suc k) outs (handle_result total_targets out acc))"

text \<open>
  What a call of \<open>scan_async\<close> leaves behind: the scanner, the settings object (the
  code assigns to its \<open>threads\<close>), whether \<open>is_scanning\<close> was set during the call, and
  \<open>max_workers\<close> of the pool when one was created.
\<close>

record run =
  engine :: ADBScanner
  settings_after :: ScanSettings
  started :: bool
  pool :: "int option"

definition targets_of :: "ScanSettings \<Rightarrow> (string \<times> int) list" where
  "targets_of st =
     concat (map (\<lambda>i. map (\<lambda>p. (i, p)) (parse_ports (custom_ports st) (port_start st) (port_end st)))
               (generate_ip_range (ip_start st) (ip_end st)))"

definition save_results :: "env \<Rightarrow> ScanSettings \<Rightarrow> int \<Rightarrow> ADBScanner \<Rightarrow> ADBScanner" where
  "save_results E st scanned s =
     (let scan_time = clock_end E - clock_start E;
          s = s\<lparr>scan_result :=
                  \<lparr>devices = map snd (devices_found s), total_scanned = scanned,
                   total_found = int (length (devices_found s)), scan_time = scan_time,
                   settings = st, result_timestamp = now_iso E\<rparr>\<rparr>;
          s = notify (''[COMPLETE] Found '' @ str_int (int (length (devices_found s)))
                        @ '' devices in '' @ format_1f E scan_time @ ''s'')
                (Some 100) (Some (int (length (devices_found s)))) s
      in log INFO (''Result: '' @ str_int (int (length (devices_found s))) @ '' devices, ''
                     @ format_1f E scan_time @ ''s'') s)"

definition scan_async :: "env \<Rightarrow> ScanSettings \<Rightarrow> ADBScanner \<Rightarrow> run" where
  "scan_async E st0 s0 =
     (case validate (repr_float E) st0 of (is_valid, error_msg) \<Rightarrow>
        if \<not> is_valid then
          \<lparr>engine = log ERROR (''Invalid settings: '' @ error_msg)
                      (notify (''[ERROR] '' @ error_msg) None None s0),
           settings_after = st0, started = False, pool = None\<rparr>
        else
          (let capped = threads st0 > 200;
               st = (if capped then st0\<lparr>threads := 200\<rparr> else st0);
               s = (if capped then log WARNING ''Thread count capped at 200'' s0 else s0);
               s = s\<lparr>is_scanning := True, devices_found := []\<rparr>;
               ips = generate_ip_range (ip_start st) (ip_end st);
               ports = parse_ports (custom_ports st) (port_start st) (port_end st);
               s = (if parse_ports_warns (custom_ports st)
                    then log WARNING (''Invalid port specification: '' @ custom_ports st) s
                    else s)
           in if ips = [] \<or> ports = [] then
                \<lparr>engine = (notify ''[ERROR] No valid IPs or ports to scan'' None None s)
                            \<lparr>is_scanning := False\<rparr>,
                 settings_after = st, started = True, pool = None\<rparr>
              else
                (let targets = targets_of st;
                     total_targets = int (length targets);
                     s = notify (''[SCAN START] '' @ str_int total_targets @ '' targets'') None None s;
                     s = log INFO (''Scanning: '' @ str_int (int (length ips)) @ '' IPs * ''
                                     @ str_int (int (length ports)) @ '' ports = ''
                                     @ str_int total_targets @ '' targets'') s
                 in case pool_error E of
                      Some msg \<Rightarrow>
                        \<lparr>engine = (log ERROR (''Critical error: '' @ msg)
                                     (notify (''[ERROR] '' @ msg) None None s))
                                   \<lparr>is_scanning := False\<rparr>,
                         settings_after = st, started = True, pool = Some (threads st)\<rparr>
                    | None \<Rightarrow>
                        (case collect (stop_seen E) total_targets 0
                                (map (future_result st) (completions E targets)) (0, s)
                         of (scanned, s) \<Rightarrow>
                           \<lparr>engine = (save_results E st scanned s)\<lparr>is_scanning := False\<rparr>,
                            settings_after = st, started = True, pool = Some (threads st)\<rparr>))))"

definition stop_scan :: "ADBScanner \<Rightarrow> ADBScanner" where
  "stop_scan s = notify ''[STOPPED] Scan stopped'' None None (s\<lparr>is_scanning := False\<rparr>)"

section \<open>Export\<close>

text \<open>
  \<open>DeviceInfo.to_dict\<close> (\<open>asdict\<close>): every field of the data class, in declaration
  order, with the text the csv writer would put in the cell.
\<close>

definition to_dict :: "DeviceInfo \<Rightarrow> (string \<times> string) list" where
  "to_dict device =
     [(''ip'', ip device), (''port'', str_int (port device)),
      (''device_type'', device_type device), (''status'', status device),
      (''device_id'', device_id device), (''manufacturer'', manufacturer device),
      (''model'', model device), (''version'', version device),
      (''timestamp'', timestamp device)]"

definition csv_fieldnames :: "string list" where
  "csv_fieldnames = [''ip'', ''port'', ''device_type'', ''status'', ''device_id'', ''timestamp'']"

text \<open>
  \<open>csv.DictWriter.writerow\<close> with the default \<open>extrasaction='raise'\<close> and
  \<open>restval=''\<close>: a key of the row that is not a field name raises \<open>ValueError\<close>
  (\<open>None\<close>); otherwise the cells are the row's values in field order.
\<close>

definition dict_to_list :: "string list \<Rightarrow> (string \<times> string) list \<Rightarrow> string list option" where
  "dict_to_list fieldnames rowdict =
     (if list_ex (\<lambda>k. k \<notin> set fieldnames) (map fst rowdict) then None
      else Some (map (\<lambda>k. case map_of rowdict k of None \<Rightarrow> [] | Some v \<Rightarrow> v) fieldnames))"

text \<open>
  The \<open>for device in self.scan_result.devices\<close> loop: the rows written so far, and
  whether \<open>writerow\<close> raised.
\<close>

fun write_rows :: "string list \<Rightarrow> DeviceInfo list \<Rightarrow> string list list \<Rightarrow> string list list \<times> bool" where
  "write_rows fieldnames [] file = (file, False)"
| "write_rows fieldnames (device # ds) file =
     (case dict_to_list fieldnames (to_dict device) of
        None \<Rightarrow> (file, True)
      | Some row \<Rightarrow> write_rows fieldnames ds (file @ [row]))"

text \<open>
  \<open>export_csv\<close>. The file is the list of its rows, the header first; \<open>None\<close> when
  \<open>open\<close> fails (\<open>can_open\<close> is false). The names of the offending fields that end
  the error line are left out.
\<close>

definition export_csv :: "bool \<Rightarrow> string \<Rightarrow> ADBScanner \<Rightarrow> string list list option \<times> ADBScanner" where
  "export_csv can_open path s =
     (if \<not> can_open then (None, log ERROR ''CSV export error: cannot open file'' s)
      else (case write_rows csv_fieldnames (devices (scan_result s)) [csv_fieldnames] of
              (file, True) \<Rightarrow>
                (Some file,
                 log ERROR ''CSV export error: dict contains fields not in fieldnames'' s)
            | (file, False) \<Rightarrow> (Some file, log INFO (''Exported to CSV: '' @ path) s)))"

section \<open>Sample inputs\<close>

text \<open>
  One address and the ports 22, 23 and 5037; the units complete in reverse order of
  submission, port 22 accepts connections and nothing else does.
\<close>

definition closed_probes :: probes where
  "closed_probes =
     \<lparr>ping = True, connect = False, adb = AdbRaised, ssh_connect = False,
      telnet_connect = False, unknown_connect = False, created = ''2024-01-01T00:00:01''\<rparr>"

definition open_probes :: probes where
  "open_probes =
     \<lparr>ping = True, connect = True, adb = AdbRaised, ssh_connect = True,
      telnet_connect = True, unknown_connect = True, created = ''2024-01-01T00:00:02''\<rparr>"

definition sample_env :: env where
  "sample_env =
     \<lparr>repr_float = (\<lambda>x. ''?''), format_1f = (\<lambda>x. ''?''), clock_start = 0, clock_end = 1,
      now_iso = ''2024-01-01T00:00:03'', pool_error = None,
      completions =
        (\<lambda>ts. map (\<lambda>t. (t, Runs (if snd t = 22 then open_probes else closed_probes))) (rev ts)),
      stop_seen = (\<lambda>k. False)\<rparr>"

definition sample_settings :: ScanSettings where
  "sample_settings =
     default_settings\<lparr>ip_start := ''10.0.0.1'', ip_end := ''10.0.0.1'', custom_ports := ''22,23''\<rparr>"

definition sample_scanner :: ADBScanner where
  "sample_scanner = set_callback (init_scanner ''2024-01-01T00:00:00'')"

text \<open>A scanner whose last report holds one record.\<close>

definition sample_report :: ADBScanner where
  "sample_report =
     (init_scanner ''2024-01-01T00:00:00'')
       \<lparr>scan_result :=
          \<lparr>devices = [new_device open_probes ''10.0.0.1'' 22 ''SSH''], total_scanned = 3,
           total_found = 1, scan_time = 1, settings = default_settings,
           result_timestamp = ''2024-01-01T00:00:03''\<rparr>\<rparr>"

section \<open>The syntax the specification asks for\<close>

text \<open>
  These two notions follow the words of the specification, not the code. An address
  is \<^emph>\<open>exactly four dot-separated decimal octets, each in [0,255]\<close>, an octet being
  one to three digits, and nothing else.
\<close>

definition digits_value :: "string \<Rightarrow> nat" where
  "digits_value p = foldl (\<lambda>a c. a * 10 + digit_val c) 0 p"

definition digit_group :: "string \<Rightarrow> bool" where
  "digit_group d = (d \<noteq> [] \<and> length d \<le> 3 \<and> list_all is_digit d)"

definition decimal_octet :: "string \<Rightarrow> bool" where
  "decimal_octet p =
     (p \<noteq> [] \<and> length p \<le> 3 \<and> list_all is_digit p \<and> digits_value p \<le> 255)"

definition dotted_quad :: "string \<Rightarrow> bool" where
  "dotted_quad s =
     (case split_on CHR ''.'' s of
        [a, b, c, d] \<Rightarrow> decimal_octet a \<and> decimal_octet b \<and> decimal_octet c \<and> decimal_octet d
      | _ \<Rightarrow> False)"

text \<open>
  The ports a specification string names: \<^emph>\<open>each comma-delimited token is either a
  single integer or a low-high dash range (low \<le> high, both valid ports); malformed
  tokens are skipped\<close>. Every token is read on its own.
\<close>

definition spec_token_ports :: "string \<Rightarrow> int set" where
  "spec_token_ports tok =
     (case split_on CHR ''-'' (strip tok) of
        [p] \<Rightarrow>
          (case py_int p of
             None \<Rightarrow> {}
           | Some n \<Rightarrow> if validate_port n then {n} else {})
      | [lo, hi] \<Rightarrow>
          (case py_int lo of
             None \<Rightarrow> {}
           | Some l \<Rightarrow>
               (case py_int hi of
                  None \<Rightarrow> {}
                | Some h \<Rightarrow> if validate_port l \<and> validate_port h \<and> l \<le> h then {l..h} else {}))
      | _ \<Rightarrow> {})"

fun spec_ports :: "string list \<Rightarrow> int set" where
  "spec_ports [] = {}"
| "spec_ports (tok # toks) = spec_token_ports tok \<union> spec_ports toks"

definition named_ports :: "string \<Rightarrow> int set" where
  "named_ports port_string = spec_ports (split_on CHR '','' port_string)"

section \<open>Notions used to state the properties of a report\<close>

text \<open>
  The target a record is about; the results the loop takes before it sees a stop;
  the records among them; the records of a whole call, in the order in which the
  loop takes them; and the calls that reach the loop.
\<close>

definition dev_key :: "DeviceInfo \<Rightarrow> string \<times> int" where
  "dev_key device = (ip device, port device)"

fun handled :: "(nat \<Rightarrow> bool) \<Rightarrow> nat \<Rightarrow> 'a list \<Rightarrow> 'a list" where
  "handled stop k [] = []"
| "handled stop k (x # xs) = (if stop k then [] else x # handled stop (Suc k) xs)"

fun found :: "outcome list \<Rightarrow> DeviceInfo list" where
  "found [] = []"
| "found (Returned (Some device) # outs) = device # found outs"
| "found (out # outs) = found outs"

definition discovered :: "env \<Rightarrow> ScanSettings \<Rightarrow> DeviceInfo list" where
  "discovered E st =
     found (handled (stop_seen E) 0 (map (future_result st) (completions E (targets_of st))))"

definition completes :: "env \<Rightarrow> ScanSettings \<Rightarrow> bool" where
  "completes E st =
     (fst (validate (repr_float E) st) \<and>
      generate_ip_range (ip_start st) (ip_end st) \<noteq> [] \<and>
      parse_ports (custom_ports st) (port_start st) (port_end st) \<noteq> [] \<and>
      pool_error E = None)"

definition report :: "env \<Rightarrow> ScanSettings \<Rightarrow> ADBScanner \<Rightarrow> ScanResult" where
  "report E st s = scan_result (engine (scan_async E st s))"

text \<open>The aggregation map after the records \<open>ds\<close> have been stored into \<open>m\<close> in turn.\<close>

definition aggregate :: "DeviceInfo list \<Rightarrow> (string \<times> DeviceInfo) list \<Rightarrow> (string \<times> DeviceInfo) list" where
  "aggregate ds m = foldl (\<lambda>m d. dict_set (device_key d) d m) m ds"

section \<open>Properties of the string primitives\<close>

lemma is_digit_digit_char: "d < 10 \<Longrightarrow> is_digit (digit_char d)"
  by (simp add: is_digit_def digit_char_def)

lemma digit_val_digit_char: "d < 10 \<Longrightarrow> digit_val (digit_char d) = d"
  by (simp add: digit_val_def digit_char_def)

lemma is_digit_not_space: "is_digit c \<Longrightarrow> \<not> is_space c"
  by (auto simp: is_digit_def is_space_def Let_def)

lemma is_digit_not_dot: "is_digit c \<Longrightarrow> c \<noteq> CHR ''.''"
  by (auto simp: is_digit_def)

lemma is_digit_not_sign: "is_digit c \<Longrightarrow> c \<noteq> CHR ''-'' \<and> c \<noteq> CHR ''+'' \<and> c \<noteq> CHR ''_'' \<and> c \<noteq> CHR '':''"
  by (auto simp: is_digit_def)

lemma str_nat_digits: "list_all is_digit (str_nat n)"
  by (induction n rule: str_nat.induct) (subst str_nat.simps, simp add: is_digit_digit_char)

lemma str_nat_nonempty: "str_nat n \<noteq> []"
  by (subst str_nat.simps) simp

lemma digs_append:
  "list_all is_digit s \<Longrightarrow> is_digit c \<Longrightarrow> digs acc s = Some v \<Longrightarrow> digs acc (s @ [c]) = Some (v * 10 + digit_val c)"
  by (induction s arbitrary: acc) auto

lemma digs_str_nat_aux: "dec_literal (str_nat n) = Some n"
proof (induction n rule: str_nat.induct)
  case (1 n)
  show ?case
  proof (cases "n < 10")
    case True
    then show ?thesis
      by (subst str_nat.simps) (simp add: dec_literal_def is_digit_digit_char digit_val_digit_char)
  next
    case False
    then have ih: "dec_literal (str_nat (n div 10)) = Some (n div 10)" using 1 by simp
    obtain c cs where cs: "str_nat (n div 10) = c # cs"
      using str_nat_nonempty by (cases "str_nat (n div 10)") auto
    have dg: "list_all is_digit (c # cs)" using str_nat_digits [of "n div 10"] cs by simp
    from ih cs dg have "digs (digit_val c) cs = Some (n div 10)"
      by (simp add: dec_literal_def)
    then have "digs (digit_val c) (cs @ [digit_char (n mod 10)]) = Some (n div 10 * 10 + n mod 10)"
      using digs_append [of cs "digit_char (n mod 10)" "digit_val c" "n div 10"] dg
      by (simp add: is_digit_digit_char digit_val_digit_char)
    then show ?thesis using False cs dg
      by (subst str_nat.simps) (simp add: dec_literal_def)
  qed
qed

lemma is_digit_not_int_space: "is_digit c \<Longrightarrow> \<not> int_space c"
  by (auto simp: is_digit_def int_space_def Let_def)

lemma int_strip_id:
  assumes "s \<noteq> []" "\<not> int_space (hd s)" "\<not> int_space (last s)"
  shows "int_strip s = s"
proof -
  have a: "dropWhile int_space s = s" using assms by (cases s) auto
  obtain ys y where s: "s = ys @ [y]" using assms(1) by (cases s rule: rev_cases) auto
  then have "dropWhile int_space (rev s) = rev s" using assms(3) by simp
  then show ?thesis using a by (simp add: int_strip_def)
qed

lemma int_strip_digits: "s \<noteq> [] \<Longrightarrow> list_all is_digit s \<Longrightarrow> int_strip s = s"
proof (rule int_strip_id)
  assume a: "s \<noteq> []" "list_all is_digit s"
  then have "is_digit (hd s)" "is_digit (last s)" by (auto simp: list_all_iff)
  then show "\<not> int_space (hd s)" "\<not> int_space (last s)"
    by (auto dest: is_digit_not_int_space)
qed

lemma dec_literal_digits:
  "s \<noteq> [] \<Longrightarrow> list_all is_digit s \<Longrightarrow> \<exists>n. dec_literal s = Some n"
proof -
  have "\<And>acc. list_all is_digit t \<Longrightarrow> \<exists>n. digs acc t = Some n" for t
    by (induction t) auto
  then show "s \<noteq> [] \<Longrightarrow> list_all is_digit s \<Longrightarrow> \<exists>n. dec_literal s = Some n"
    by (cases s) (auto simp: dec_literal_def)
qed

text \<open>A run of digits within the digit limit converts to the number it denotes.\<close>

lemma py_int_digits:
  assumes "s \<noteq> []" "list_all is_digit s" "length s \<le> max_str_digits"
  shows "\<exists>n. py_int s = Some (int n) \<and> dec_literal s = Some n"
proof -
  obtain n where n: "dec_literal s = Some n" using dec_literal_digits [OF assms(1,2)] by blast
  obtain c cs where s: "s = c # cs" using assms(1) by (cases s) auto
  then have "is_digit c" using assms(2) by simp
  then have c: "c \<noteq> CHR ''-''" "c \<noteq> CHR ''+''" using is_digit_not_sign by blast+
  have "length (filter is_digit (c # cs)) \<le> max_str_digits"
    using assms(3) s length_filter_le [of is_digit "c # cs"] by simp
  then have "\<not> max_str_digits < length (filter is_digit (c # cs))" by simp
  then show ?thesis
    using n s c int_strip_digits [OF assms(1,2)] by (simp add: py_int_def Let_def)
qed

lemma py_int_str_nat:
  "length (str_nat n) \<le> max_str_digits \<Longrightarrow> py_int (str_nat n) = Some (int n)"
  using py_int_digits [OF str_nat_nonempty str_nat_digits, of n] by (simp add: digs_str_nat_aux)

lemma str_nat_length: "n < 1000 \<Longrightarrow> length (str_nat n) \<le> 3"
  by (subst str_nat.simps, subst str_nat.simps, subst str_nat.simps) auto

text \<open>\<open>int(str(i)) = i\<close> for the small numbers that occur as octets.\<close>

lemma py_int_str_int: "0 \<le> i \<Longrightarrow> i < 1000 \<Longrightarrow> py_int (str_int i) = Some i"
proof -
  assume i: "0 \<le> i" "i < 1000"
  then have "length (str_nat (nat i)) \<le> 3" by (intro str_nat_length) simp
  then have "length (str_nat (nat i)) \<le> max_str_digits" by (simp add: max_str_digits_def)
  then show ?thesis using i py_int_str_nat [of "nat i"] by (simp add: str_int_def)
qed

text \<open>\<open>str\<close> is injective on the integers.\<close>

lemma str_nat_inject: "str_nat m = str_nat n \<Longrightarrow> m = n"
proof -
  assume "str_nat m = str_nat n"
  then have "dec_literal (str_nat m) = dec_literal (str_nat n)" by simp
  then show ?thesis unfolding digs_str_nat_aux by simp
qed

lemma str_int_inject:
  assumes "str_int i = str_int j"
  shows "i = j"
proof -
  have d: "hd (str_nat n) \<noteq> CHR ''-''" for n
    using str_nat_nonempty [of n] str_nat_digits [of n] is_digit_not_sign
    by (cases "str_nat n") auto
  show ?thesis
  proof (cases "i < 0")
    case True
    show ?thesis
    proof (cases "j < 0")
      case True
      with \<open>i < 0\<close> assms have "str_nat (nat (- i)) = str_nat (nat (- j))"
        by (simp add: str_int_def)
      then have "nat (- i) = nat (- j)" by (rule str_nat_inject)
      then show ?thesis using True \<open>i < 0\<close> by simp
    next
      case False
      with \<open>i < 0\<close> assms have "CHR ''-'' # str_nat (nat (- i)) = str_nat (nat j)"
        by (simp add: str_int_def)
      then have "hd (str_nat (nat j)) = CHR ''-''" by (metis list.sel(1))
      then show ?thesis using d by blast
    qed
  next
    case False
    show ?thesis
    proof (cases "j < 0")
      case True
      with False assms have "str_nat (nat i) = CHR ''-'' # str_nat (nat (- j))"
        by (simp add: str_int_def)
      then have "hd (str_nat (nat i)) = CHR ''-''" by simp
      then show ?thesis using d by blast
    next
      case j: False
      with False assms have "str_nat (nat i) = str_nat (nat j)" by (simp add: str_int_def)
      then have "nat i = nat j" by (rule str_nat_inject)
      then show ?thesis using False j by simp
    qed
  qed
qed

lemma split_on_nonempty: "split_on sep s \<noteq> []"
  by (induction s) (auto split: list.splits)

lemma split_on_no_sep: "sep \<notin> set s \<Longrightarrow> split_on sep s = [s]"
  by (induction s) auto

lemma split_on_append: "sep \<notin> set d \<Longrightarrow> split_on sep (d @ sep # r) = d # split_on sep r"
  by (induction d) auto

lemma digits_no_dot: "list_all is_digit d \<Longrightarrow> CHR ''.'' \<notin> set d"
  by (auto simp: list_all_iff dest: is_digit_not_dot)

lemma takeWhile_digits: "list_all is_digit (takeWhile is_digit s)"
  by (simp add: list_all_iff) (meson set_takeWhileD)

text \<open>A part that is a run of digits, possibly followed by one line feed, converts.\<close>

lemma py_int_digits_nl:
  assumes "d \<noteq> []" "list_all is_digit d"
  shows "py_int (d @ [CHR 0x0A]) = py_int d"
proof -
  have sp: "int_space (CHR 0x0A)" by (simp add: int_space_def)
  have "is_digit (last d)" using assms by (auto simp: list_all_iff)
  then have nl: "\<not> int_space (last d)" by (rule is_digit_not_int_space)
  have "is_digit (hd d)" using assms by (auto simp: list_all_iff)
  then have nh: "\<not> int_space (hd d)" by (rule is_digit_not_int_space)
  obtain ys y where d: "d = ys @ [y]" using assms(1) by (cases d rule: rev_cases) auto
  have "dropWhile int_space (d @ [CHR 0x0A]) = d @ [CHR 0x0A]"
    using nh assms(1) by (cases d) auto
  moreover have "dropWhile int_space (rev (d @ [CHR 0x0A])) = rev d"
    using sp nl d by simp
  ultimately have "int_strip (d @ [CHR 0x0A]) = d" by (simp add: int_strip_def)
  moreover have "int_strip d = d" using int_strip_digits [OF assms] .
  ultimately show ?thesis by (simp add: py_int_def)
qed

lemma match_octets_parts:
  "match_octets n s \<Longrightarrow>
     length (split_on CHR ''.'' s) = Suc n \<and>
     list_all (\<lambda>p. \<exists>k. py_int p = Some (int k)) (split_on CHR ''.'' s)"
proof (induction n arbitrary: s)
  case 0
  define d where "d = takeWhile is_digit s"
  define r where "r = dropWhile is_digit s"
  have s: "s = d @ r" by (simp add: d_def r_def)
  have dd: "list_all is_digit d" unfolding d_def by (rule takeWhile_digits)
  from 0 have "1 \<le> length d \<and> length d \<le> 3 \<and> (r = [] \<or> r = [CHR 0x0A])"
    by (auto simp: Let_def d_def r_def)
  then have len: "d \<noteq> []" and lim: "length d \<le> max_str_digits"
    and r: "r = [] \<or> r = [CHR 0x0A]"
    by (auto simp: max_str_digits_def)
  have nodot: "CHR ''.'' \<notin> set s" using digits_no_dot [OF dd] r s by auto
  have "\<exists>k. py_int s = Some (int k)"
    using r s py_int_digits [OF len dd lim] py_int_digits_nl [OF len dd] by auto
  then show ?case using split_on_no_sep [OF nodot] by simp
next
  case (Suc n)
  define d where "d = takeWhile is_digit s"
  define r where "r = dropWhile is_digit s"
  have s: "s = d @ r" by (simp add: d_def r_def)
  have dd: "list_all is_digit d" unfolding d_def by (rule takeWhile_digits)
  from Suc.prems have "1 \<le> length d \<and> length d \<le> 3 \<and>
      (\<exists>r'. r = CHR ''.'' # r' \<and> match_octets n r')"
    by (auto simp: Let_def d_def r_def split: list.splits)
  then obtain r' where len: "d \<noteq> []" and lim: "length d \<le> max_str_digits"
    and r: "r = CHR ''.'' # r'" and m: "match_octets n r'"
    by (cases d) (auto simp: max_str_digits_def)
  have sp: "split_on CHR ''.'' s = d # split_on CHR ''.'' r'"
    using split_on_append [OF digits_no_dot [OF dd]] s r by simp
  show ?case using Suc.IH [OF m] sp py_int_digits [OF len dd lim] by auto
qed

lemma re_match_ip_parts_int:
  "re_match_ip addr \<Longrightarrow> list_all (\<lambda>p. py_int p \<noteq> None) (split_on CHR ''.'' addr)"
  using match_octets_parts [of 3 addr] by (auto simp: re_match_ip_def list_all_iff)

lemma length4: "length xs = 4 \<Longrightarrow> \<exists>a b c d. xs = [a, b, c, d]"
  by (cases xs; cases "tl xs"; cases "tl (tl xs)"; cases "tl (tl (tl xs))") auto


lemma validate_ip_tuple:
  assumes "validate_ip addr"
  shows "\<exists>a b c d. ip_to_tuple addr = [a, b, c, d] \<and> octet a \<and> octet b \<and> octet c \<and> octet d"
proof -
  let ?ps = "split_on CHR ''.'' addr"
  from assms have m: "re_match_ip addr" and ok: "list_all octet_ok ?ps"
    by (auto simp: validate_ip_def split: if_splits)
  have len: "length ?ps = 4" using match_octets_parts [of 3 addr] m by (simp add: re_match_ip_def)
  have all: "list_all (\<lambda>p. p \<noteq> None) (map py_int ?ps)"
    using re_match_ip_parts_int [OF m] by (simp add: list_all_iff)
  then have t: "ip_to_tuple addr = map the (map py_int ?ps)" by (simp add: ip_to_tuple_def Let_def)
  obtain p1 p2 p3 p4 where ps: "?ps = [p1, p2, p3, p4]" using length4 [OF len] by blast
  have "\<And>p. octet_ok p \<Longrightarrow> octet (the (py_int p))"
    by (auto simp: octet_ok_def octet_def split: option.splits)
  then show ?thesis using ok t ps by simp
qed

section \<open>Properties of the address generator\<close>

lemma tuple_le_num:
  "carry_quad cur \<Longrightarrow> valid_quad e \<Longrightarrow> tuple_le cur e = (ip_num cur \<le> ip_num e)"
  by (cases cur; cases e) (auto simp: octet_def)

lemma tuple_le_valid:
  "carry_quad cur \<Longrightarrow> valid_quad e \<Longrightarrow> tuple_le cur e \<Longrightarrow> valid_quad cur"
  by (cases cur; cases e) (auto simp: octet_def split: if_splits)

lemma increment_num: "valid_quad cur \<Longrightarrow> ip_num (increment cur) = ip_num cur + 1"
  by (cases cur) (auto simp: octet_def)

lemma increment_carry: "valid_quad cur \<Longrightarrow> carry_quad (increment cur)"
  by (cases cur) (auto simp: octet_def)

lemma str_int_nonneg_digits: "0 \<le> a \<Longrightarrow> list_all is_digit (str_int a) \<and> str_int a \<noteq> []"
  by (simp add: str_int_def str_nat_digits str_nat_nonempty)

lemma split_ip_str:
  assumes "0 \<le> a" "0 \<le> b" "0 \<le> c" "0 \<le> d"
  shows "split_on CHR ''.'' (ip_str (a, b, c, d)) = [str_int a, str_int b, str_int c, str_int d]"
proof -
  have n: "CHR ''.'' \<notin> set (str_int a)" "CHR ''.'' \<notin> set (str_int b)"
    "CHR ''.'' \<notin> set (str_int c)" "CHR ''.'' \<notin> set (str_int d)"
    using assms str_int_nonneg_digits digits_no_dot by blast+
  show ?thesis
    by (simp add: split_on_append [OF n(1)] split_on_append [OF n(2)]
        split_on_append [OF n(3)] split_on_no_sep [OF n(4)])
qed

lemma ip_to_tuple_ip_str:
  assumes "0 \<le> a" "0 \<le> b" "0 \<le> c" "0 \<le> d" "a < 1000" "b < 1000" "c < 1000" "d < 1000"
  shows "ip_to_tuple (ip_str (a, b, c, d)) = [a, b, c, d]"
  unfolding ip_to_tuple_def split_ip_str [OF assms(1-4)] using assms
  by (simp add: py_int_str_int)

lemma ip_value_ip_str: "carry_quad q \<Longrightarrow> ip_value (ip_str q) = ip_num q"
proof (cases q)
  case (fields a b c d)
  assume "carry_quad q"
  then have "0 \<le> a" "0 \<le> b" "0 \<le> c" "0 \<le> d" "a < 1000" "b < 1000" "c < 1000" "d < 1000"
    using fields by (auto simp: octet_def)
  from ip_to_tuple_ip_str [OF this] show ?thesis using fields by (simp add: ip_value_def)
qed

lemma ip_loop_values:
  "carry_quad cur \<Longrightarrow> valid_quad e \<Longrightarrow>
     map ip_value (ip_loop cur e) = [ip_num cur .. ip_num e]"
proof (induction cur e rule: ip_loop.induct)
  case (1 current e)
  show ?case
  proof (cases "tuple_le current e")
    case False
    then have "\<not> ip_num current \<le> ip_num e" using tuple_le_num [OF "1.prems"] by simp
    then show ?thesis using False by (subst ip_loop.simps) simp
  next
    case True
    then have le: "ip_num current \<le> ip_num e" using tuple_le_num [OF "1.prems"] by simp
    have v: "valid_quad current" using tuple_le_valid [OF "1.prems" True] .
    have "map ip_value (ip_loop (increment current) e) = [ip_num current + 1 .. ip_num e]"
      using "1.IH" [OF True increment_carry [OF v] "1.prems"(2)] increment_num [OF v] by simp
    then show ?thesis using True ip_value_ip_str [OF "1.prems"(1)]
      by (subst ip_loop.simps) (simp add: upto_rec1 [OF le])
  qed
qed

text \<open>Every generated string is itself a valid address.\<close>

lemma takeWhile_digits_dot:
  "list_all is_digit d \<Longrightarrow> takeWhile is_digit (d @ CHR ''.'' # r) = d \<and> dropWhile is_digit (d @ CHR ''.'' # r) = CHR ''.'' # r"
  by (induction d) (auto simp: is_digit_def)

lemma takeWhile_digits_end:
  "list_all is_digit d \<Longrightarrow> takeWhile is_digit d = d \<and> dropWhile is_digit d = []"
  by (induction d) auto

lemma octet_str:
  assumes "octet a"
  shows "list_all is_digit (str_int a) \<and> 1 \<le> length (str_int a) \<and> length (str_int a) \<le> 3"
proof -
  have s: "str_int a = str_nat (nat a)" using assms by (simp add: octet_def str_int_def)
  have "length (str_nat (nat a)) \<le> 3" using assms by (intro str_nat_length) (auto simp: octet_def)
  moreover have "1 \<le> length (str_nat (nat a))"
    using str_nat_nonempty [of "nat a"] by (cases "str_nat (nat a)") auto
  ultimately show ?thesis using s str_nat_digits [of "nat a"] by simp
qed

lemma octet_ok_str: "octet a \<Longrightarrow> octet_ok (str_int a)"
  by (simp add: octet_ok_def py_int_str_int octet_def)

lemma validate_ip_ip_str:
  assumes "valid_quad q"
  shows "validate_ip (ip_str q)"
proof (cases q)
  case (fields a b c d)
  then have o: "octet a" "octet b" "octet c" "octet d" using assms by auto
  then have nn: "0 \<le> a" "0 \<le> b" "0 \<le> c" "0 \<le> d" by (auto simp: octet_def)
  note s = octet_str [OF o(1)] octet_str [OF o(2)] octet_str [OF o(3)] octet_str [OF o(4)]
  have tw: "takeWhile is_digit (str_int d) = str_int d" "dropWhile is_digit (str_int d) = []"
    using takeWhile_digits_end [OF conjunct1 [OF s(4)]] by blast+
  have m3: "match_octets 0 (str_int d)"
    unfolding match_octets.simps Let_def tw using s(4) by simp
  have m2: "match_octets 1 (str_int c @ CHR ''.'' # str_int d)"
    using s(3) m3 takeWhile_digits_dot [OF conjunct1 [OF s(3)], of "str_int d"]
    by (simp add: Let_def del: match_octets.simps(1))
  have m1: "match_octets 2 (str_int b @ CHR ''.'' # str_int c @ CHR ''.'' # str_int d)"
    using s(2) m2 takeWhile_digits_dot [OF conjunct1 [OF s(2)], of "str_int c @ CHR ''.'' # str_int d"]
    by (simp add: Let_def numeral_2_eq_2 del: match_octets.simps(1))
  have m0: "match_octets 3 (str_int a @ CHR ''.'' # str_int b @ CHR ''.'' # str_int c @ CHR ''.'' # str_int d)"
    using s(1) m1 takeWhile_digits_dot [OF conjunct1 [OF s(1)], of "str_int b @ CHR ''.'' # str_int c @ CHR ''.'' # str_int d"]
    by (simp add: Let_def numeral_3_eq_3 numeral_2_eq_2 del: match_octets.simps(1))
  have "re_match_ip (ip_str q)" using m0 fields by (simp add: re_match_ip_def)
  moreover have "list_all octet_ok (split_on CHR ''.'' (ip_str q))"
    unfolding fields split_ip_str [OF nn] using o by (simp add: octet_ok_str)
  ultimately show ?thesis by (simp add: validate_ip_def)
qed

lemma ip_loop_valid:
  "carry_quad cur \<Longrightarrow> valid_quad e \<Longrightarrow> list_all validate_ip (ip_loop cur e)"
proof (induction cur e rule: ip_loop.induct)
  case (1 current e)
  show ?case
  proof (cases "tuple_le current e")
    case False
    then show ?thesis by (subst ip_loop.simps) simp
  next
    case True
    have v: "valid_quad current" using tuple_le_valid [OF "1.prems" True] .
    show ?thesis
      using "1.IH" [OF True increment_carry [OF v] "1.prems"(2)] validate_ip_ip_str [OF v] True
      by (subst ip_loop.simps) simp
  qed
qed


text \<open>
  For endpoints that \<open>validate_ip\<close> accepts, \<open>generate_ip_range\<close> returns the
  addresses whose values are \<open>start, start + 1, ..., end\<close> in this order, each of
  them valid, and nothing when the value of the start exceeds that of the end; for
  endpoints that \<open>validate_ip\<close> rejects it returns nothing.
\<close>

lemma generate_ip_range_enumerates:
  "(validate_ip s \<and> validate_ip e \<and> ip_value s \<le> ip_value e \<longrightarrow>
      length (generate_ip_range s e) = nat (ip_value e - ip_value s + 1) \<and>
      map ip_value (generate_ip_range s e) = [ip_value s .. ip_value e] \<and>
      sorted_wrt (<) (map ip_value (generate_ip_range s e)) \<and>
      list_all validate_ip (generate_ip_range s e)) \<and>
   (validate_ip s \<and> validate_ip e \<and> ip_value e < ip_value s \<longrightarrow> generate_ip_range s e = []) \<and>
   (\<not> validate_ip s \<or> \<not> validate_ip e \<longrightarrow> generate_ip_range s e = [])"
proof (cases "validate_ip s \<and> validate_ip e")
  case False
  then show ?thesis by (auto simp: generate_ip_range_def)
next
  case True
  obtain a b c d where s: "ip_to_tuple s = [a, b, c, d]" and vs: "valid_quad (a, b, c, d)"
    using validate_ip_tuple [of s] True by auto
  obtain a' b' c' d' where e: "ip_to_tuple e = [a', b', c', d']" and ve: "valid_quad (a', b', c', d')"
    using validate_ip_tuple [of e] True by auto
  have g: "generate_ip_range s e = ip_loop (a, b, c, d) (a', b', c', d')"
    using True s e by (simp add: generate_ip_range_def)
  have cs: "carry_quad (a, b, c, d)" using vs by (auto simp: octet_def)
  have vals: "map ip_value (generate_ip_range s e) = [ip_value s .. ip_value e]"
    using ip_loop_values [OF cs ve] g s e by (simp add: ip_value_def)
  have len: "length (generate_ip_range s e) = nat (ip_value e - ip_value s + 1)"
    using arg_cong [OF vals, of length] by simp
  have srt: "sorted_wrt (<) (map ip_value (generate_ip_range s e))"
    unfolding vals by (simp add: strict_sorted_iff)
  have ok: "list_all validate_ip (generate_ip_range s e)"
    using ip_loop_valid [OF cs ve] g by simp
  have emp: "ip_value e < ip_value s \<Longrightarrow> generate_ip_range s e = []"
    using vals by (metis list.map_disc_iff upto_Nil2)
  show ?thesis using True vals len srt ok emp by simp
qed

lemma generate_ip_range_example:
  "validate_ip ''10.0.0.254'' \<and> validate_ip ''10.0.1.1'' \<and> \<not> validate_ip ''10.0.1''
   \<and> ip_value ''10.0.0.254'' = 167772414 \<and> ip_value ''10.0.1.1'' = 167772417
   \<and> length (generate_ip_range ''10.0.0.254'' ''10.0.1.1'') = 4
   \<and> map ip_value (generate_ip_range ''10.0.0.254'' ''10.0.1.1'') = [167772414, 167772415, 167772416, 167772417]
   \<and> generate_ip_range ''10.0.1.1'' ''10.0.0.254'' = []
   \<and> generate_ip_range ''10.0.1'' ''10.0.0.254'' = []"
proof -
  have v: "validate_ip ''10.0.0.254''" "validate_ip ''10.0.1.1''" "\<not> validate_ip ''10.0.1''"
    by code_simp+
  have n: "ip_value ''10.0.0.254'' = 167772414" "ip_value ''10.0.1.1'' = 167772417"
    by code_simp+
  have u: "[167772414 .. 167772417] = [167772414, 167772415, 167772416, 167772417::int]"
    by code_simp
  show ?thesis
    using generate_ip_range_enumerates [of "''10.0.0.254''" "''10.0.1.1''"]
      generate_ip_range_enumerates [of "''10.0.1.1''" "''10.0.0.254''"]
      generate_ip_range_enumerates [of "''10.0.1''" "''10.0.0.254''"] v n u
    by simp
qed

section \<open>The addresses that validation accepts\<close>

lemma digs_digits:
  "list_all is_digit s \<Longrightarrow> digs acc s = Some (foldl (\<lambda>a c. a * 10 + digit_val c) acc s)"
  by (induction s arbitrary: acc) auto

lemma dec_literal_value:
  "s \<noteq> [] \<Longrightarrow> list_all is_digit s \<Longrightarrow> dec_literal s = Some (digits_value s)"
  by (cases s) (simp_all add: dec_literal_def digits_value_def digs_digits)

lemma py_int_value:
  assumes "s \<noteq> []" "list_all is_digit s" "length s \<le> 3"
  shows "py_int s = Some (int (digits_value s))"
proof -
  have "length s \<le> max_str_digits" using assms(3) by (simp add: max_str_digits_def)
  from py_int_digits [OF assms(1,2) this] show ?thesis
    using dec_literal_value [OF assms(1,2)] by auto
qed

lemma decimal_octet_ok: "decimal_octet p \<Longrightarrow> octet_ok p \<and> octet_ok (p @ [CHR 0x0A])"
  by (simp add: decimal_octet_def octet_ok_def py_int_value py_int_digits_nl)

text \<open>A string is its parts joined by the separator.\<close>

lemma split_on_single: "split_on sep s = [p] \<Longrightarrow> s = p \<and> sep \<notin> set p"
proof (induction s arbitrary: p)
  case Nil
  then show ?case by simp
next
  case (Cons c s)
  then show ?case
    by (cases "c = sep"; cases "split_on sep s") (auto simp: split_on_nonempty)
qed

lemma split_on_more:
  "split_on sep s = p # q # ps \<Longrightarrow> \<exists>r. s = p @ sep # r \<and> split_on sep r = q # ps \<and> sep \<notin> set p"
proof (induction s arbitrary: p)
  case Nil
  then show ?case by simp
next
  case (Cons c s)
  show ?case
  proof (cases "c = sep")
    case True
    then show ?thesis using Cons.prems by auto
  next
    case False
    obtain p' ps' where sp: "split_on sep s = p' # ps'"
      using split_on_nonempty [of sep s] by (cases "split_on sep s") auto
    with False Cons.prems have p: "p = c # p'" and r: "ps' = q # ps" by auto
    from Cons.IH [of p'] sp r obtain r' where "s = p' @ sep # r'" "split_on sep r' = q # ps" "sep \<notin> set p'"
      by auto
    then show ?thesis using p False by auto
  qed
qed

lemma split_on_four:
  assumes "split_on sep s = [a, b, c, d]"
  shows "s = a @ sep # b @ sep # c @ sep # d"
proof -
  from split_on_more [OF assms] obtain r1 where r1: "s = a @ sep # r1" "split_on sep r1 = [b, c, d]" by auto
  from split_on_more [OF r1(2)] obtain r2 where r2: "r1 = b @ sep # r2" "split_on sep r2 = [c, d]" by auto
  from split_on_more [OF r2(2)] obtain r3 where r3: "r2 = c @ sep # r3" "split_on sep r3 = [d]" by auto
  from split_on_single [OF r3(2)] have "r3 = d" by simp
  then show ?thesis using r1 r2 r3 by simp
qed

lemma match_octets_0_shape:
  "match_octets 0 s \<longleftrightarrow> (\<exists>d nl. s = d @ nl \<and> digit_group d \<and> (nl = [] \<or> nl = [CHR 0x0A]))"
proof
  assume m: "match_octets 0 s"
  define d where "d = takeWhile is_digit s"
  define r where "r = dropWhile is_digit s"
  have s: "s = d @ r" by (simp add: d_def r_def)
  have dd: "list_all is_digit d" unfolding d_def by (rule takeWhile_digits)
  from m have "1 \<le> length d \<and> length d \<le> 3 \<and> (r = [] \<or> r = [CHR 0x0A])"
    by (auto simp: Let_def d_def r_def)
  then have "digit_group d \<and> (r = [] \<or> r = [CHR 0x0A])"
    using dd by (cases d) (auto simp: digit_group_def)
  then show "\<exists>d nl. s = d @ nl \<and> digit_group d \<and> (nl = [] \<or> nl = [CHR 0x0A])"
    using s by blast
next
  assume "\<exists>d nl. s = d @ nl \<and> digit_group d \<and> (nl = [] \<or> nl = [CHR 0x0A])"
  then obtain d nl where s: "s = d @ nl" and g: "digit_group d" and nl: "nl = [] \<or> nl = [CHR 0x0A]"
    by blast
  have dd: "list_all is_digit d" using g by (simp add: digit_group_def)
  have nd: "\<not> is_digit (CHR 0x0A)" by (simp add: is_digit_def)
  have tw: "takeWhile is_digit s = d \<and> dropWhile is_digit s = nl"
    using s dd nl nd takeWhile_digits_end [OF dd]
    by (auto simp: list_all_iff takeWhile_append2 dropWhile_append2)
  show "match_octets 0 s"
    using tw g nl by (cases d) (auto simp: Let_def digit_group_def)
qed

lemma match_octets_Suc_shape:
  "match_octets (Suc n) s \<longleftrightarrow>
     (\<exists>d r. s = d @ CHR ''.'' # r \<and> digit_group d \<and> match_octets n r)"
proof
  assume m: "match_octets (Suc n) s"
  define d where "d = takeWhile is_digit s"
  define r where "r = dropWhile is_digit s"
  have s: "s = d @ r" by (simp add: d_def r_def)
  have dd: "list_all is_digit d" unfolding d_def by (rule takeWhile_digits)
  from m have "1 \<le> length d \<and> length d \<le> 3 \<and> (\<exists>r'. r = CHR ''.'' # r' \<and> match_octets n r')"
    by (auto simp: Let_def d_def r_def split: list.splits)
  then obtain r' where "digit_group d" "r = CHR ''.'' # r'" "match_octets n r'"
    using dd by (cases d) (auto simp: digit_group_def)
  then show "\<exists>d r. s = d @ CHR ''.'' # r \<and> digit_group d \<and> match_octets n r"
    using s by blast
next
  assume "\<exists>d r. s = d @ CHR ''.'' # r \<and> digit_group d \<and> match_octets n r"
  then obtain d r where s: "s = d @ CHR ''.'' # r" and g: "digit_group d" and m: "match_octets n r"
    by blast
  have dd: "list_all is_digit d" using g by (simp add: digit_group_def)
  have tw: "takeWhile is_digit s = d" "dropWhile is_digit s = CHR ''.'' # r"
    using takeWhile_digits_dot [OF dd, of r] s by simp_all
  show "match_octets (Suc n) s"
    unfolding match_octets.simps Let_def tw using g m
    by (cases d) (auto simp: digit_group_def)
qed

lemma re_match_ip_shape:
  "re_match_ip s \<longleftrightarrow>
     (\<exists>a b c d nl. s = a @ CHR ''.'' # b @ CHR ''.'' # c @ CHR ''.'' # d @ nl \<and>
        digit_group a \<and> digit_group b \<and> digit_group c \<and> digit_group d \<and>
        (nl = [] \<or> nl = [CHR 0x0A]))"
proof -
  have three: "(3::nat) = Suc (Suc (Suc 0))" by simp
  show ?thesis
    unfolding re_match_ip_def three match_octets_Suc_shape match_octets_0_shape
    by (auto; blast)
qed

lemma split_quad:
  assumes "digit_group a" "digit_group b" "digit_group c" "digit_group d" "nl = [] \<or> nl = [CHR 0x0A]"
  shows "split_on CHR ''.'' (a @ CHR ''.'' # b @ CHR ''.'' # c @ CHR ''.'' # d @ nl) = [a, b, c, d @ nl]"
proof -
  have n: "CHR ''.'' \<notin> set a" "CHR ''.'' \<notin> set b" "CHR ''.'' \<notin> set c" "CHR ''.'' \<notin> set d"
    using assms(1-4) digits_no_dot by (auto simp: digit_group_def)
  have nd: "CHR ''.'' \<notin> set (d @ nl)" using n(4) assms(5) by auto
  show ?thesis
    by (simp only: split_on_append [OF n(1)] split_on_append [OF n(2)]
        split_on_append [OF n(3)] split_on_no_sep [OF nd])
qed

lemma octet_ok_group:
  assumes "digit_group p"
  shows "octet_ok p = (digits_value p \<le> 255)" "octet_ok (p @ [CHR 0x0A]) = (digits_value p \<le> 255)"
proof -
  have p: "p \<noteq> []" "list_all is_digit p" "length p \<le> 3"
    using assms by (simp_all add: digit_group_def)
  show "octet_ok p = (digits_value p \<le> 255)"
    by (simp add: octet_ok_def py_int_value [OF p])
  show "octet_ok (p @ [CHR 0x0A]) = (digits_value p \<le> 255)"
    by (simp add: octet_ok_def py_int_digits_nl [OF p(1,2)] py_int_value [OF p])
qed

lemma decimal_octet_group: "decimal_octet p = (digit_group p \<and> digits_value p \<le> 255)"
  by (auto simp: decimal_octet_def digit_group_def)

lemma validate_ip_shape:
  "validate_ip s \<longleftrightarrow>
     (\<exists>a b c d nl. s = a @ CHR ''.'' # b @ CHR ''.'' # c @ CHR ''.'' # d @ nl \<and>
        decimal_octet a \<and> decimal_octet b \<and> decimal_octet c \<and> decimal_octet d \<and>
        (nl = [] \<or> nl = [CHR 0x0A]))"
proof
  assume v: "validate_ip s"
  then have m: "re_match_ip s" and ok: "list_all octet_ok (split_on CHR ''.'' s)"
    by (auto simp: validate_ip_def split: if_splits)
  from m obtain a b c d nl where s: "s = a @ CHR ''.'' # b @ CHR ''.'' # c @ CHR ''.'' # d @ nl"
    and g: "digit_group a" "digit_group b" "digit_group c" "digit_group d"
    and nl: "nl = [] \<or> nl = [CHR 0x0A]"
    unfolding re_match_ip_shape by blast
  have "list_all octet_ok [a, b, c, d @ nl]" using ok unfolding s split_quad [OF g nl] .
  then have "decimal_octet a \<and> decimal_octet b \<and> decimal_octet c \<and> decimal_octet d"
    using g nl by (auto simp: decimal_octet_group octet_ok_group)
  then show "\<exists>a b c d nl. s = a @ CHR ''.'' # b @ CHR ''.'' # c @ CHR ''.'' # d @ nl \<and>
        decimal_octet a \<and> decimal_octet b \<and> decimal_octet c \<and> decimal_octet d \<and>
        (nl = [] \<or> nl = [CHR 0x0A])"
    using s nl by blast
next
  assume "\<exists>a b c d nl. s = a @ CHR ''.'' # b @ CHR ''.'' # c @ CHR ''.'' # d @ nl \<and>
        decimal_octet a \<and> decimal_octet b \<and> decimal_octet c \<and> decimal_octet d \<and>
        (nl = [] \<or> nl = [CHR 0x0A])"
  then obtain a b c d nl where s: "s = a @ CHR ''.'' # b @ CHR ''.'' # c @ CHR ''.'' # d @ nl"
    and o: "decimal_octet a" "decimal_octet b" "decimal_octet c" "decimal_octet d"
    and nl: "nl = [] \<or> nl = [CHR 0x0A]"
    by blast
  have g: "digit_group a" "digit_group b" "digit_group c" "digit_group d"
    using o by (simp_all add: decimal_octet_group)
  have m: "re_match_ip s" unfolding re_match_ip_shape using s g nl by blast
  have "list_all octet_ok [a, b, c, d @ nl]"
    using o g nl by (auto simp: decimal_octet_group octet_ok_group)
  then have "list_all octet_ok (split_on CHR ''.'' s)" unfolding s split_quad [OF g nl] .
  then show "validate_ip s" using m by (simp add: validate_ip_def)
qed

lemma dotted_quad_shape:
  "dotted_quad t \<longleftrightarrow>
     (\<exists>a b c d. t = a @ CHR ''.'' # b @ CHR ''.'' # c @ CHR ''.'' # d \<and>
        decimal_octet a \<and> decimal_octet b \<and> decimal_octet c \<and> decimal_octet d)"
proof
  assume q: "dotted_quad t"
  then obtain a b c d where sp: "split_on CHR ''.'' t = [a, b, c, d]"
    and o: "decimal_octet a" "decimal_octet b" "decimal_octet c" "decimal_octet d"
    by (auto simp: dotted_quad_def split: list.splits)
  from split_on_four [OF sp] o
  show "\<exists>a b c d. t = a @ CHR ''.'' # b @ CHR ''.'' # c @ CHR ''.'' # d \<and>
        decimal_octet a \<and> decimal_octet b \<and> decimal_octet c \<and> decimal_octet d"
    by blast
next
  assume "\<exists>a b c d. t = a @ CHR ''.'' # b @ CHR ''.'' # c @ CHR ''.'' # d \<and>
        decimal_octet a \<and> decimal_octet b \<and> decimal_octet c \<and> decimal_octet d"
  then obtain a b c d where t: "t = a @ CHR ''.'' # b @ CHR ''.'' # c @ CHR ''.'' # d"
    and o: "decimal_octet a" "decimal_octet b" "decimal_octet c" "decimal_octet d"
    by blast
  have g: "digit_group a" "digit_group b" "digit_group c" "digit_group d"
    using o by (simp_all add: decimal_octet_group)
  have "split_on CHR ''.'' t = [a, b, c, d]"
    using split_quad [OF g, of "[]"] t by simp
  then show "dotted_quad t" using o by (simp add: dotted_quad_def)
qed

text \<open>
  What \<open>validate_ip\<close> accepts: the addresses of the specification, and each of them
  followed by one line feed.
\<close>

lemma validate_ip_iff:
  "validate_ip s \<longleftrightarrow> dotted_quad s \<or> (\<exists>t. s = t @ [CHR 0x0A] \<and> dotted_quad t)"
proof
  assume "validate_ip s"
  then obtain a b c d nl where s: "s = a @ CHR ''.'' # b @ CHR ''.'' # c @ CHR ''.'' # d @ nl"
    and o: "decimal_octet a" "decimal_octet b" "decimal_octet c" "decimal_octet d"
    and nl: "nl = [] \<or> nl = [CHR 0x0A]"
    unfolding validate_ip_shape by blast
  have q: "dotted_quad (a @ CHR ''.'' # b @ CHR ''.'' # c @ CHR ''.'' # d)"
    unfolding dotted_quad_shape using o by blast
  from nl show "dotted_quad s \<or> (\<exists>t. s = t @ [CHR 0x0A] \<and> dotted_quad t)"
  proof
    assume "nl = []"
    then show ?thesis using s q by simp
  next
    assume "nl = [CHR 0x0A]"
    then have "s = (a @ CHR ''.'' # b @ CHR ''.'' # c @ CHR ''.'' # d) @ [CHR 0x0A]"
      using s by simp
    then show ?thesis using q by blast
  qed
next
  assume "dotted_quad s \<or> (\<exists>t. s = t @ [CHR 0x0A] \<and> dotted_quad t)"
  then show "validate_ip s"
  proof
    assume "dotted_quad s"
    then obtain a b c d where "s = a @ CHR ''.'' # b @ CHR ''.'' # c @ CHR ''.'' # d @ []"
      "decimal_octet a" "decimal_octet b" "decimal_octet c" "decimal_octet d"
      unfolding dotted_quad_shape by auto
    then show ?thesis unfolding validate_ip_shape by blast
  next
    assume "\<exists>t. s = t @ [CHR 0x0A] \<and> dotted_quad t"
    then obtain a b c d where "s = a @ CHR ''.'' # b @ CHR ''.'' # c @ CHR ''.'' # d @ [CHR 0x0A]"
      "decimal_octet a" "decimal_octet b" "decimal_octet c" "decimal_octet d"
      unfolding dotted_quad_shape by auto
    then show ?thesis unfolding validate_ip_shape by blast
  qed
qed

lemma dotted_quad_no_newline: "dotted_quad t \<Longrightarrow> \<not> dotted_quad (t @ [CHR 0x0A])"
proof
  assume a: "dotted_quad t" and b: "dotted_quad (t @ [CHR 0x0A])"
  from b obtain a' b' c' d' where t: "t @ [CHR 0x0A] = a' @ CHR ''.'' # b' @ CHR ''.'' # c' @ CHR ''.'' # d'"
    and o: "decimal_octet d'" unfolding dotted_quad_shape by blast
  have "d' \<noteq> []" using o by (simp add: decimal_octet_def)
  then have "last (t @ [CHR 0x0A]) = last d'" unfolding t by simp
  then have "last d' = CHR 0x0A" by simp
  moreover have "is_digit (last d')" using o \<open>d' \<noteq> []\<close> by (auto simp: decimal_octet_def list_all_iff)
  ultimately show False by (simp add: is_digit_def)
qed

text \<open>For the addresses of the specification the enumeration is as claimed.\<close>

lemma generate_ip_range_dotted_quads:
  assumes "dotted_quad s" "dotted_quad e"
  shows "(ip_value s \<le> ip_value e \<longrightarrow>
            length (generate_ip_range s e) = nat (ip_value e - ip_value s + 1) \<and>
            map ip_value (generate_ip_range s e) = [ip_value s .. ip_value e] \<and>
            sorted_wrt (<) (map ip_value (generate_ip_range s e))) \<and>
         (ip_value e < ip_value s \<longrightarrow> generate_ip_range s e = [])"
proof -
  have "validate_ip s" "validate_ip e" using assms validate_ip_iff by blast+
  then show ?thesis using generate_ip_range_enumerates [of s e] by simp
qed

text \<open>
  Claim C1 fails on the code in its last part: an endpoint that is not a valid
  address does not always give the empty sequence. The start \<open>1.1.1.1\<close> followed by
  a line feed is not four dot-separated octets, yet \<open>validate_ip\<close> accepts it and the
  range up to \<open>1.1.1.2\<close> has two addresses. The count, the order and the empty
  result for a start above the end hold for all valid endpoints
  (\<open>generate_ip_range_dotted_quads\<close>).
\<close>

theorem generate_ip_range_trailing_newline:
  "\<not> dotted_quad (''1.1.1.1'' @ [CHR 0x0A]) \<and> dotted_quad ''1.1.1.2'' \<and>
   generate_ip_range (''1.1.1.1'' @ [CHR 0x0A]) ''1.1.1.2'' = [''1.1.1.1'', ''1.1.1.2'']"
  by code_simp

theorem generate_ip_range_trailing_newline_witness:
  "length (generate_ip_range (''1.1.1.1'' @ [CHR 0x0A]) ''1.1.1.2'') = 2"
  using generate_ip_range_trailing_newline by simp

section \<open>Properties of the port specification\<close>

lemma finite_port_range: "finite (port_range a b)"
  by (simp add: port_range_def)

lemma finite_parse_token: "parse_token t = Some ps \<Longrightarrow> finite ps"
  by (auto simp: parse_token_def Let_def split: if_splits option.splits)

lemma parse_tokens_fst:
  "fst (parse_tokens ts P) =
     P \<union> (\<Union>t \<in> set (takeWhile (\<lambda>t. parse_token t \<noteq> None) ts). the (parse_token t))"
  by (induction ts arbitrary: P) (auto split: option.splits)

lemma parse_tokens_snd: "snd (parse_tokens ts P) = (\<exists>t \<in> set ts. parse_token t = None)"
  by (induction ts arbitrary: P) (auto split: option.splits)

lemma parse_tokens_finite: "finite P \<Longrightarrow> finite (fst (parse_tokens ts P))"
proof (induction ts arbitrary: P)
  case Nil
  then show ?case by simp
next
  case (Cons t ts)
  show ?case
  proof (cases "parse_token t")
    case None
    then show ?thesis using Cons.prems by simp
  next
    case (Some ps)
    then have "finite (P \<union> ps)" using Cons.prems finite_parse_token by simp
    then show ?thesis using Some Cons.IH by simp
  qed
qed

lemma parse_tokens_cut:
  "parse_token t = None \<Longrightarrow> (\<forall>u \<in> set pre. parse_token u \<noteq> None) \<Longrightarrow>
     parse_tokens (pre @ t # post) P = (fst (parse_tokens pre P), True)"
  by (induction pre arbitrary: P) (auto split: option.splits)

lemma parse_tokens_prefix:
  "(\<forall>u \<in> set pre. parse_token u \<noteq> None) \<Longrightarrow> parse_token t = Some ps \<Longrightarrow>
     ps \<subseteq> fst (parse_tokens (pre @ t # post) P)"
  by (simp add: parse_tokens_fst takeWhile_append2 [of pre]) (auto simp: takeWhile_append)

lemma set_parse_ports:
  "set (parse_ports s a b) = fst (parse_tokens (split_on CHR '','' s) (port_range a b))"
  by (simp add: parse_ports_def parse_tokens_finite finite_port_range)

lemma parse_token_single:
  "CHR ''-'' \<notin> set (strip t) \<Longrightarrow> py_int (strip t) = Some p \<Longrightarrow>
     parse_token t = Some (if validate_port p then {p} else {})"
  by (simp add: parse_token_def Let_def)

lemma parse_token_range:
  assumes "strip t = l @ ''-'' @ h" "CHR ''-'' \<notin> set l" "CHR ''-'' \<notin> set h"
    "py_int l = Some p1" "py_int h = Some p2"
  shows "parse_token t = Some (if validate_port p1 \<and> validate_port p2 \<and> p1 \<le> p2 then {p1..p2} else {})"
proof -
  have "split_on CHR ''-'' (strip t) = [l, h]"
    using assms(1-3) by (simp add: split_on_append split_on_no_sep)
  then show ?thesis using assms by (simp add: parse_token_def Let_def)
qed



lemma split_on_length: "sep \<in> set s \<Longrightarrow> 2 \<le> length (split_on sep s)"
proof (induction s)
  case Nil
  then show ?case by simp
next
  case (Cons c s)
  show ?case
  proof (cases "c = sep")
    case True
    then show ?thesis using split_on_nonempty [of sep s] by (cases "split_on sep s") auto
  next
    case False
    then have "sep \<in> set s" using Cons.prems by simp
    then have "2 \<le> length (split_on sep s)" by (rule Cons.IH)
    then show ?thesis using False by (cases "split_on sep s") auto
  qed
qed

text \<open>
  A token on which no conversion raises adds exactly the ports the specification
  gives it.
\<close>

lemma parse_token_spec:
  assumes "parse_token t = Some ps"
  shows "ps = spec_token_ports t"
proof (cases "CHR ''-'' \<in> set (strip t)")
  case False
  then have sp: "split_on CHR ''-'' (strip t) = [strip t]" by (rule split_on_no_sep)
  show ?thesis
    using assms False unfolding parse_token_def spec_token_ports_def sp Let_def
    by (auto split: option.splits if_splits)
next
  case True
  from split_on_length [OF True] obtain p q r where sp: "split_on CHR ''-'' (strip t) = p # q # r"
    by (cases "split_on CHR ''-'' (strip t)"; cases "tl (split_on CHR ''-'' (strip t))") auto
  show ?thesis
  proof (cases r)
    case Nil
    then show ?thesis
      using assms True unfolding parse_token_def spec_token_ports_def sp Let_def
      by (auto split: option.splits if_splits)
  next
    case (Cons x xs)
    then show ?thesis
      using assms True unfolding parse_token_def spec_token_ports_def sp Let_def
      by (auto split: option.splits if_splits)
  qed
qed

lemma parse_tokens_all_convert:
  "\<forall>t \<in> set ts. parse_token t \<noteq> None \<Longrightarrow> parse_tokens ts P = (P \<union> spec_ports ts, False)"
proof (induction ts arbitrary: P)
  case Nil
  then show ?case by simp
next
  case (Cons t ts)
  then obtain ps where ps: "parse_token t = Some ps" by auto
  have "parse_tokens ts (P \<union> ps) = (P \<union> ps \<union> spec_ports ts, False)"
    using Cons by simp
  then show ?case using ps parse_token_spec [OF ps] by (simp add: Un_assoc)
qed

text \<open>The loop never adds a port that the string does not name.\<close>

lemma parse_tokens_subset: "fst (parse_tokens ts P) \<subseteq> P \<union> spec_ports ts"
proof (induction ts arbitrary: P)
  case Nil
  then show ?case by simp
next
  case (Cons t ts)
  show ?case
  proof (cases "parse_token t")
    case None
    then show ?thesis by auto
  next
    case (Some ps)
    have "fst (parse_tokens ts (P \<union> ps)) \<subseteq> P \<union> ps \<union> spec_ports ts" by (rule Cons.IH)
    then show ?thesis using Some parse_token_spec [OF Some] by auto
  qed
qed

text \<open>
  For every input the result is in strictly ascending order, so sorted and without
  duplicates, and holds no port outside the valid range and the named ports. When
  every token converts it is exactly their union, and no warning is logged.
\<close>

lemma parse_ports_sorted:
  "sorted_wrt (<) (parse_ports s a b) \<and> sorted (parse_ports s a b) \<and> distinct (parse_ports s a b)"
proof -
  have "sorted_wrt (<) (parse_ports s a b)" by (simp add: parse_ports_def)
  then show ?thesis by (simp add: strict_sorted_iff)
qed

lemma parse_ports_subset: "set (parse_ports s a b) \<subseteq> port_range a b \<union> named_ports s"
  unfolding set_parse_ports named_ports_def by (rule parse_tokens_subset)

lemma parse_ports_all_convert:
  assumes "\<forall>t \<in> set (split_on CHR '','' s). parse_token t \<noteq> None"
  shows "set (parse_ports s a b) = port_range a b \<union> named_ports s \<and> \<not> parse_ports_warns s"
  unfolding set_parse_ports named_ports_def parse_ports_warns_def
  by (simp add: parse_tokens_all_convert [OF assms])

lemma parse_ports_example:
  "parse_ports ''22,80,100-102'' 5037 5037 = [22, 80, 100, 101, 102, 5037]"
  by code_simp

text \<open>
  What the code does instead of reading every token: the first token on which a
  conversion raises ends the loop, with a warning, and the result is that of the
  tokens before it.
\<close>

lemma parse_ports_stops_at_error:
  "set (parse_ports s a b) =
     port_range a b \<union>
     (\<Union>t \<in> set (takeWhile (\<lambda>t. parse_token t \<noteq> None) (split_on CHR '','' s)).
        spec_token_ports t) \<and>
   parse_ports_warns s = (\<exists>t \<in> set (split_on CHR '','' s). parse_token t = None)"
proof -
  have "the (parse_token t) = spec_token_ports t"
    if "t \<in> set (takeWhile (\<lambda>t. parse_token t \<noteq> None) (split_on CHR '','' s))" for t
  proof -
    from that have "parse_token t \<noteq> None" by (auto dest: set_takeWhileD)
    then obtain ps where ps: "parse_token t = Some ps" by auto
    then show ?thesis using parse_token_spec [OF ps] by simp
  qed
  then have "(\<Union>t \<in> set (takeWhile (\<lambda>t. parse_token t \<noteq> None) (split_on CHR '','' s)).
       the (parse_token t)) =
     (\<Union>t \<in> set (takeWhile (\<lambda>t. parse_token t \<noteq> None) (split_on CHR '','' s)).
       spec_token_ports t)"
    by simp
  then show ?thesis
    unfolding set_parse_ports parse_tokens_fst
    by (simp add: parse_ports_warns_def parse_tokens_snd)
qed

text \<open>
  Claim C7 fails on the code: the result is not always the union of the valid range
  and the ports named in the string. In \<open>"x,22"\<close> the string names port 22, so the
  union with the range 5037..5037 is \<open>22, 5037\<close>; the code returns \<open>5037\<close> alone,
  because the conversion of \<open>x\<close> raises and ends the loop. The example of the
  claim evaluates as claimed (\<open>parse_ports_example\<close>) and every result is sorted and
  free of duplicates (\<open>parse_ports_sorted\<close>).
\<close>

theorem parse_ports_misses_named_port:
  "parse_ports ''x,22'' 5037 5037 = [5037] \<and>
   sorted_list_of_set (port_range 5037 5037 \<union> named_ports ''x,22'') = [22, 5037]"
  by code_simp

theorem parse_ports_misses_named_port_witness:
  "parse_ports ''x,22'' 5037 5037 \<noteq>
     sorted_list_of_set (port_range 5037 5037 \<union> named_ports ''x,22'')"
  using parse_ports_misses_named_port by simp

text \<open>
  Claim C4 fails on the code: in \<open>"abc,80"\<close> the token \<open>80\<close> is well formed and
  names a valid port, but the conversion of \<open>abc\<close> raises before the loop reaches
  it, so port 80 is not in the result. With the tokens in the other order it is.
\<close>

theorem parse_ports_later_token_lost:
  "split_on CHR '','' ''abc,80'' = [''abc'', ''80''] \<and> spec_token_ports ''80'' = {80} \<and>
   parse_token ''80'' = Some {80} \<and> validate_port 80 \<and>
   80 \<notin> set (parse_ports ''abc,80'' 5037 5037) \<and>
   parse_ports ''abc,80'' 5037 5037 = [5037] \<and> parse_ports ''80,abc'' 5037 5037 = [80, 5037]"
  by code_simp

theorem parse_ports_later_token_lost_witness:
  "parse_ports ''abc,80'' 5037 5037 \<noteq> parse_ports ''80,abc'' 5037 5037"
  using parse_ports_later_token_lost by simp

section \<open>Properties of validation\<close>

lemma validate_ip_examples:
  "\<not> validate_ip ''256.1.1.1'' \<and> \<not> validate_ip ''1.1.1'' \<and> \<not> validate_ip ''abc.def.1.1'' \<and>
   validate_ip ''0.0.0.0'' \<and> validate_ip ''255.255.255.255'' \<and>
   \<not> validate_ip '' 1.1.1.1'' \<and> \<not> validate_ip ''1.1.1.1 '' \<and> \<not> validate_ip ''::1'' \<and>
   \<not> validate_ip ''localhost'' \<and> \<not> validate_ip ''1.1.1.1.1'' \<and> \<not> validate_ip ''1.1.1.1111''"
  by code_simp

text \<open>
  Claim C2 fails on the code: the address \<open>1.1.1.1\<close> followed by a line feed, which
  is trailing white space, is accepted. The pattern ends in \<open>$\<close>, which also
  matches before a final line feed, and \<open>int\<close> ignores the line feed in the last part.
\<close>

theorem validate_ip_trailing_newline:
  "validate_ip (''1.1.1.1'' @ [CHR 0x0A]) \<and> is_space (CHR 0x0A) \<and>
   split_on CHR ''.'' (''1.1.1.1'' @ [CHR 0x0A]) = [''1'', ''1'', ''1'', ''1'' @ [CHR 0x0A]]"
  by code_simp

theorem validate_ip_trailing_newline_witness:
  "validate_ip (''1.1.1.1'' @ [CHR 0x0A])"
  using validate_ip_trailing_newline by blast

section \<open>Properties of the export\<close>

lemma to_dict_rejected: "dict_to_list csv_fieldnames (to_dict device) = None"
  by (simp add: dict_to_list_def to_dict_def csv_fieldnames_def)

lemma write_rows_nonempty:
  "ds \<noteq> [] \<Longrightarrow> write_rows csv_fieldnames ds file = (file, True)"
  by (cases ds) (simp_all add: to_dict_rejected)

lemma export_csv_nonempty:
  "devices (scan_result s) \<noteq> [] \<Longrightarrow>
     export_csv True path s =
       (Some [csv_fieldnames],
        log ERROR ''CSV export error: dict contains fields not in fieldnames'' s)"
  by (simp add: export_csv_def write_rows_nonempty)

text \<open>
  Claim C9 fails on the code: for a report with one record the file holds the header
  row and no data row. \<open>to_dict\<close> gives the row the keys \<open>manufacturer\<close>,
  \<open>model\<close> and \<open>version\<close>, which are not field names of the writer, so the first
  \<open>writerow\<close> raises and the handler logs an error.
\<close>

theorem export_csv_one_device:
  "devices (scan_result sample_report) = [new_device open_probes ''10.0.0.1'' 22 ''SSH''] \<and>
   fst (export_csv True ''scan.csv'' sample_report) = Some [csv_fieldnames] \<and>
   logged (snd (export_csv True ''scan.csv'' sample_report)) =
     [(ERROR, ''CSV export error: dict contains fields not in fieldnames'')]"
  by (simp add: sample_report_def init_scanner_def export_csv_def to_dict_rejected log_def)

theorem export_csv_one_device_witness:
  "length (devices (scan_result sample_report)) = 1 \<and>
   map length (the (fst (export_csv True ''scan.csv'' sample_report))) = [6]"
  using export_csv_one_device by (simp add: csv_fieldnames_def)

section \<open>Properties of the scan\<close>

lemma notify_fields [simp]:
  "is_scanning (notify m p d s) = is_scanning s"
  "devices_found (notify m p d s) = devices_found s"
  "scan_result (notify m p d s) = scan_result s"
  "callback (notify m p d s) = callback s"
  "logged (notify m p d s) = logged s"
  by (simp_all add: notify_def)

lemma log_fields [simp]:
  "is_scanning (log lv m s) = is_scanning s"
  "devices_found (log lv m s) = devices_found s"
  "scan_result (log lv m s) = scan_result s"
  "callback (log lv m s) = callback s"
  "delivered (log lv m s) = delivered s"
  "logged (log lv m s) = logged s @ [(lv, m)]"
  by (simp_all add: log_def)

lemma validate_threads_ok: "fst (validate rf st) \<Longrightarrow> validate_threads (threads st)"
  by (auto simp: validate_def split: if_splits)

lemma validate_only_threads:
  "validate_ip (ip_start st) \<Longrightarrow> validate_ip (ip_end st) \<Longrightarrow> validate_port (port_start st) \<Longrightarrow>
   validate_port (port_end st) \<Longrightarrow> port_start st \<le> port_end st \<Longrightarrow>
   \<not> validate_threads (threads st) \<Longrightarrow>
   validate rf st = (False, ''Invalid threads (1-200): '' @ str_int (threads st))"
  by (simp add: validate_def)

lemma scan_async_invalid:
  "\<not> fst (validate (repr_float E) st) \<Longrightarrow>
     scan_async E st s =
       \<lparr>engine = log ERROR (''Invalid settings: '' @ snd (validate (repr_float E) st))
                   (notify (''[ERROR] '' @ snd (validate (repr_float E) st)) None None s),
        settings_after = st, started = False, pool = None\<rparr>"
  by (cases "validate (repr_float E) st") (simp add: scan_async_def)

text \<open>With valid settings the cap is never applied and the call ends on one of three paths.\<close>

lemma scan_async_valid:
  assumes "fst (validate (repr_float E) st)"
  shows "started (scan_async E st s) \<and> settings_after (scan_async E st s) = st \<and>
         \<not> is_scanning (engine (scan_async E st s)) \<and>
         (pool (scan_async E st s) = None \<or> pool (scan_async E st s) = Some (threads st))"
proof -
  have t: "\<not> threads st > 200" using validate_threads_ok [OF assms] by (simp add: validate_threads_def)
  obtain m where v: "validate (repr_float E) st = (True, m)"
    using assms by (cases "validate (repr_float E) st") auto
  show ?thesis
    unfolding scan_async_def v using t
    by (simp add: Let_def split: option.splits prod.splits)
qed

text \<open>
  Claim C6. When the settings fail validation, \<open>scan_async\<close> returns without setting
  \<open>is_scanning\<close> and without creating a pool; the flag, the aggregation map and
  the stored result are as before; the callback, when one is registered, receives
  exactly one notification, the error message; and one error line is logged.
\<close>

theorem scan_async_invalid_settings:
  assumes "\<not> fst (validate (repr_float E) st)"
  shows "\<not> started (scan_async E st s) \<and> pool (scan_async E st s) = None \<and>
         settings_after (scan_async E st s) = st \<and>
         is_scanning (engine (scan_async E st s)) = is_scanning s \<and>
         devices_found (engine (scan_async E st s)) = devices_found s \<and>
         scan_result (engine (scan_async E st s)) = scan_result s \<and>
         callback (engine (scan_async E st s)) = callback s \<and>
         delivered (engine (scan_async E st s)) =
           (if callback s
            then delivered s @ [Notification (''[ERROR] '' @ snd (validate (repr_float E) st)) None None]
            else delivered s) \<and>
         logged (engine (scan_async E st s)) =
           logged s @ [(ERROR, ''Invalid settings: '' @ snd (validate (repr_float E) st))]"
  unfolding scan_async_invalid [OF assms] by (simp add: notify_def)

lemma sample_invalid:
  "validate (repr_float sample_env) (sample_settings\<lparr>port_start := 0\<rparr>) = (False, ''Invalid port start: 0'')"
  by code_simp

theorem scan_async_invalid_settings_witness:
  "\<not> fst (validate (repr_float sample_env) (sample_settings\<lparr>port_start := 0\<rparr>)) \<and>
   \<not> started (scan_async sample_env (sample_settings\<lparr>port_start := 0\<rparr>) sample_scanner) \<and>
   pool (scan_async sample_env (sample_settings\<lparr>port_start := 0\<rparr>) sample_scanner) = None \<and>
   \<not> is_scanning (engine (scan_async sample_env (sample_settings\<lparr>port_start := 0\<rparr>) sample_scanner)) \<and>
   delivered (engine (scan_async sample_env (sample_settings\<lparr>port_start := 0\<rparr>) sample_scanner)) =
     [Notification ''[ERROR] Invalid port start: 0'' None None]"
proof -
  have h: "\<not> fst (validate (repr_float sample_env) (sample_settings\<lparr>port_start := 0\<rparr>))"
    by (simp add: sample_invalid)
  have c: "callback sample_scanner" "delivered sample_scanner = []" "\<not> is_scanning sample_scanner"
    by (simp_all add: sample_scanner_def set_callback_def init_scanner_def)
  show ?thesis
    using scan_async_invalid_settings [OF h, of sample_scanner] h c
    by (simp add: sample_invalid)
qed

text \<open>
  Claim C10. If \<open>is_scanning\<close> is false when \<open>scan_async\<close> is called, it is false
  when the call returns, whatever the settings and the environment: the settings are
  rejected, the target space is empty, submitting to the pool raises, results raise,
  a stop is seen, or the scan completes.
\<close>

theorem scan_async_clears_flag:
  "\<not> is_scanning s \<Longrightarrow> \<not> is_scanning (engine (scan_async E st s))"
proof (cases "fst (validate (repr_float E) st)")
  case True
  then show ?thesis using scan_async_valid by blast
next
  case False
  assume "\<not> is_scanning s"
  then show ?thesis unfolding scan_async_invalid [OF False] by simp
qed

lemma sample_run_delivered:
  "delivered (engine (scan_async sample_env sample_settings sample_scanner)) =
     [Notification ''[SCAN START] 3 targets'' None None,
      Notification ''[FOUND] 10.0.0.1:22 (SSH)'' (Some 100) (Some 1),
      Notification ''[COMPLETE] Found 1 devices in ?s'' (Some 100) (Some 1)]"
  by code_simp

lemma sample_empty_delivered:
  "delivered (engine (scan_async sample_env (sample_settings\<lparr>ip_start := ''10.0.0.2''\<rparr>) sample_scanner)) =
     [Notification ''[ERROR] No valid IPs or ports to scan'' None None]"
  by code_simp

lemma sample_pool_error_delivered:
  "delivered (engine (scan_async (sample_env\<lparr>pool_error := Some ''cannot start new thread''\<rparr>)
       sample_settings sample_scanner)) =
     [Notification ''[SCAN START] 3 targets'' None None,
      Notification ''[ERROR] cannot start new thread'' None None]"
  by code_simp

theorem scan_async_clears_flag_witness:
  "\<not> is_scanning sample_scanner \<and>
   \<not> is_scanning (engine (scan_async sample_env sample_settings sample_scanner)) \<and>
   \<not> is_scanning (engine (scan_async sample_env (sample_settings\<lparr>port_start := 0\<rparr>) sample_scanner)) \<and>
   \<not> is_scanning (engine (scan_async sample_env (sample_settings\<lparr>ip_start := ''10.0.0.2''\<rparr>) sample_scanner)) \<and>
   \<not> is_scanning (engine (scan_async (sample_env\<lparr>pool_error := Some ''cannot start new thread''\<rparr>)
        sample_settings sample_scanner))"
proof -
  have h: "\<not> is_scanning sample_scanner"
    by (simp add: sample_scanner_def set_callback_def init_scanner_def)
  show ?thesis
    using h scan_async_clears_flag [OF h, of sample_env sample_settings]
      scan_async_clears_flag [OF h, of sample_env "sample_settings\<lparr>port_start := 0\<rparr>"]
      scan_async_clears_flag [OF h, of sample_env "sample_settings\<lparr>ip_start := ''10.0.0.2''\<rparr>"]
      scan_async_clears_flag [OF h, of "sample_env\<lparr>pool_error := Some ''cannot start new thread''\<rparr>" sample_settings]
    by blast
qed

text \<open>
  Claim C3, as stated, fails: a request for 500 threads is not reduced to 200 and
  run. Validation rejects it, the call ends with one error notification, no pool is
  created, and the thread count of the settings is still 500.
\<close>

theorem scan_async_500_threads_rejected:
  "\<not> started (scan_async sample_env (sample_settings\<lparr>threads := 500\<rparr>) sample_scanner) \<and>
   pool (scan_async sample_env (sample_settings\<lparr>threads := 500\<rparr>) sample_scanner) = None \<and>
   threads (settings_after (scan_async sample_env (sample_settings\<lparr>threads := 500\<rparr>) sample_scanner)) = 500 \<and>
   delivered (engine (scan_async sample_env (sample_settings\<lparr>threads := 500\<rparr>) sample_scanner)) =
     [Notification ''[ERROR] Invalid threads (1-200): 500'' None None] \<and>
   logged (engine (scan_async sample_env (sample_settings\<lparr>threads := 500\<rparr>) sample_scanner)) =
     [(ERROR, ''Invalid settings: Invalid threads (1-200): 500'')]"
  by code_simp

text \<open>
  Claim C3, amended. A thread count outside 1..200, above 200 as well as zero or
  negative, is rejected by validation: the scan does not start and no pool is
  created, and when the thread count is the only invalid field the error names it.
  The settings object is never changed, so the cap at 200 is never applied. A pool,
  when one is created, has exactly the requested number of workers, between 1 and 200.
\<close>

theorem scan_async_thread_bound:
  "(\<not> validate_threads (threads st) \<longrightarrow>
      \<not> fst (validate (repr_float E) st) \<and>
      \<not> started (scan_async E st s) \<and> pool (scan_async E st s) = None) \<and>
   (validate_ip (ip_start st) \<and> validate_ip (ip_end st) \<and> validate_port (port_start st) \<and>
    validate_port (port_end st) \<and> port_start st \<le> port_end st \<and>
    \<not> validate_threads (threads st) \<longrightarrow>
      validate (repr_float E) st = (False, ''Invalid threads (1-200): '' @ str_int (threads st))) \<and>
   settings_after (scan_async E st s) = st \<and>
   (\<forall>n. pool (scan_async E st s) = Some n \<longrightarrow> n = threads st \<and> 1 \<le> n \<and> n \<le> 200)"
proof (cases "fst (validate (repr_float E) st)")
  case True
  note v = scan_async_valid [OF True, of s]
  have t: "validate_threads (threads st)" using validate_threads_ok [OF True] .
  have p: "\<forall>n. pool (scan_async E st s) = Some n \<longrightarrow> n = threads st \<and> 1 \<le> n \<and> n \<le> 200"
    using v t by (auto simp: validate_threads_def)
  show ?thesis using v t p by simp
next
  case False
  have r: "\<not> started (scan_async E st s)" "pool (scan_async E st s) = None"
    "settings_after (scan_async E st s) = st"
    unfolding scan_async_invalid [OF False] by simp_all
  show ?thesis using r False validate_only_threads [of st "repr_float E"] by simp
qed

theorem scan_async_thread_bound_witness:
  "\<not> validate_threads (threads (sample_settings\<lparr>threads := 0\<rparr>)) \<and>
   \<not> started (scan_async sample_env (sample_settings\<lparr>threads := 0\<rparr>) sample_scanner) \<and>
   pool (scan_async sample_env (sample_settings\<lparr>threads := 0\<rparr>) sample_scanner) = None \<and>
   validate (repr_float sample_env) (sample_settings\<lparr>threads := 0\<rparr>) =
     (False, ''Invalid threads (1-200): 0'') \<and>
   pool (scan_async sample_env sample_settings sample_scanner) = Some 50 \<and>
   threads sample_settings = 50"
proof -
  have h: "\<not> validate_threads (threads (sample_settings\<lparr>threads := 0\<rparr>))"
    by (simp add: validate_threads_def)
  have f: "validate_ip (ip_start (sample_settings\<lparr>threads := 0\<rparr>))"
    "validate_ip (ip_end (sample_settings\<lparr>threads := 0\<rparr>))"
    "validate_port (port_start (sample_settings\<lparr>threads := 0\<rparr>))"
    "validate_port (port_end (sample_settings\<lparr>threads := 0\<rparr>))"
    "port_start (sample_settings\<lparr>threads := 0\<rparr>) \<le> port_end (sample_settings\<lparr>threads := 0\<rparr>)"
    by code_simp+
  have s0: "str_int 0 = ''0''" by code_simp
  have p: "pool (scan_async sample_env sample_settings sample_scanner) = Some 50" by code_simp
  have t: "threads sample_settings = 50" by (simp add: sample_settings_def default_settings_def)
  note a = scan_async_thread_bound [of "sample_settings\<lparr>threads := 0\<rparr>" sample_env sample_scanner]
  note b = scan_async_thread_bound [of sample_settings sample_env sample_scanner]
  have a1: "\<not> started (scan_async sample_env (sample_settings\<lparr>threads := 0\<rparr>) sample_scanner) \<and>
      pool (scan_async sample_env (sample_settings\<lparr>threads := 0\<rparr>) sample_scanner) = None"
    using a h by blast
  have a2: "validate (repr_float sample_env) (sample_settings\<lparr>threads := 0\<rparr>) =
      (False, ''Invalid threads (1-200): '' @ str_int (threads (sample_settings\<lparr>threads := 0\<rparr>)))"
    using a h f by blast
  have b1: "50 = threads sample_settings \<and> 1 \<le> (50::int) \<and> (50::int) \<le> 200"
    using b p by blast
  show ?thesis using h a1 a2 p t s0 by simp
qed

section \<open>Properties of the aggregation\<close>

lemma dict_set_map_fst:
  "map fst (dict_set k v m) = (if k \<in> set (map fst m) then map fst m else map fst m @ [k])"
proof (induction m)
  case Nil
  then show ?case by simp
next
  case (Cons e m)
  obtain k' v' where e: "e = (k', v')" by (cases e)
  show ?case
  proof (cases "k' = k")
    case True
    then show ?thesis using e by simp
  next
    case False
    then show ?thesis using e Cons by simp
  qed
qed

lemma dict_set_keys: "fst ` set (dict_set k v m) = insert k (fst ` set m)"
proof -
  have "set (map fst (dict_set k v m)) = insert k (set (map fst m))"
    unfolding dict_set_map_fst by auto
  then show ?thesis by simp
qed

lemma dict_set_distinct: "distinct (map fst m) \<Longrightarrow> distinct (map fst (dict_set k v m))"
  unfolding dict_set_map_fst by simp

lemma dict_set_map_of: "map_of (dict_set k v m) = (map_of m)(k \<mapsto> v)"
  by (induction m) (auto simp: fun_eq_iff)


lemma aggregate_Nil [simp]: "aggregate [] m = m"
  by (simp add: aggregate_def)

lemma aggregate_Cons [simp]: "aggregate (d # ds) m = aggregate ds (dict_set (device_key d) d m)"
  by (simp add: aggregate_def)

lemma aggregate_snoc: "aggregate (ds @ [d]) m = dict_set (device_key d) d (aggregate ds m)"
  by (simp add: aggregate_def)

lemma aggregate_distinct: "distinct (map fst m) \<Longrightarrow> distinct (map fst (aggregate ds m))"
  by (induction ds arbitrary: m) (simp_all add: dict_set_distinct)

lemma aggregate_keys: "fst ` set (aggregate ds m) = device_key ` set ds \<union> fst ` set m"
  by (induction ds arbitrary: m) (auto simp: dict_set_keys)

lemma aggregate_lookup:
  "map_of (aggregate ds []) k =
     (if k \<in> device_key ` set ds then Some (last (filter (\<lambda>x. device_key x = k) ds)) else None)"
proof (induction ds rule: rev_induct)
  case Nil
  then show ?case by simp
next
  case (snoc d ds)
  show ?case unfolding aggregate_snoc dict_set_map_of using snoc by auto
qed

lemma aggregate_entries:
  assumes "(k, d) \<in> set (aggregate ds [])"
  shows "k = device_key d \<and> d = last (filter (\<lambda>x. device_key x = device_key d) ds)"
proof -
  have dist: "distinct (map fst (aggregate ds []))" by (rule aggregate_distinct) simp
  then have m: "map_of (aggregate ds []) k = Some d" using assms by simp
  have k: "k \<in> device_key ` set ds"
    using m aggregate_lookup [of ds k] by (auto split: if_splits)
  then have d: "d = last (filter (\<lambda>x. device_key x = k) ds)"
    using m aggregate_lookup [of ds k] by simp
  have ne: "filter (\<lambda>x. device_key x = k) ds \<noteq> []" using k by (auto simp: filter_empty_conv)
  have "last (filter (\<lambda>x. device_key x = k) ds) \<in> set (filter (\<lambda>x. device_key x = k) ds)"
    using ne by (rule last_in_set)
  then have "device_key d = k" using d by simp
  then show ?thesis using d by simp
qed

lemma append_sep_inject:
  "c \<notin> set a \<Longrightarrow> c \<notin> set b \<Longrightarrow> a @ c # r = b @ c # r' \<Longrightarrow> a = b \<and> r = r'"
proof (induction a arbitrary: b)
  case Nil
  then show ?case by (cases b) auto
next
  case (Cons x a)
  then show ?case by (cases b) auto
qed

lemma str_nat_no_colon: "CHR '':'' \<notin> set (str_nat n)"
  using str_nat_digits [of n] is_digit_not_sign by (auto simp: list_all_iff)

lemma str_int_no_colon: "CHR '':'' \<notin> set (str_int i)"
  by (simp add: str_int_def str_nat_no_colon)

lemma device_key_eq: "device_key d = device_key d' \<longleftrightarrow> dev_key d = dev_key d'"
proof
  assume "device_key d = device_key d'"
  then have "rev (device_key d) = rev (device_key d')" by simp
  then have "rev (str_int (port d)) @ CHR '':'' # rev (ip d) =
             rev (str_int (port d')) @ CHR '':'' # rev (ip d')"
    unfolding device_key_def by simp
  then have "rev (str_int (port d)) = rev (str_int (port d')) \<and> rev (ip d) = rev (ip d')"
    by (intro append_sep_inject [where c = "CHR '':''"]) (simp_all add: str_int_no_colon)
  then show "dev_key d = dev_key d'" by (simp add: dev_key_def str_int_inject)
next
  assume "dev_key d = dev_key d'"
  then show "device_key d = device_key d'" by (simp add: dev_key_def device_key_def)
qed

lemma handle_result_devices:
  "devices_found (snd (handle_result total_targets out (scanned, s))) =
     aggregate (found [out]) (devices_found s)"
proof (cases out)
  case (Raised msg)
  then show ?thesis by (simp add: handle_result_def)
next
  case (Returned r)
  then show ?thesis by (cases r) (simp_all add: handle_result_def Let_def)
qed

lemma found_Cons: "found (out # outs) = found [out] @ found outs"
  by (cases "(out # outs)" rule: found.cases) auto

lemma aggregate_append: "aggregate (xs @ ys) m = aggregate ys (aggregate xs m)"
  by (simp add: aggregate_def)

lemma collect_devices:
  "devices_found (snd (collect stop total_targets k outs acc)) =
     aggregate (found (handled stop k outs)) (devices_found (snd acc))"
proof (induction outs arbitrary: k acc)
  case Nil
  then show ?case by simp
next
  case (Cons out outs)
  obtain scanned s where acc: "acc = (scanned, s)" by (cases acc)
  show ?case
  proof (cases "stop k")
    case True
    then show ?thesis by simp
  next
    case False
    have "found (handled stop k (out # outs)) = found [out] @ found (handled stop (Suc k) outs)"
      using False found_Cons [of out "handled stop (Suc k) outs"] by simp
    then show ?thesis
      using False Cons [of "Suc k" "handle_result total_targets out acc"]
      by (simp add: acc handle_result_devices aggregate_append)
  qed
qed

lemma save_results_report:
  "scan_result (save_results E st scanned s) =
     \<lparr>devices = map snd (devices_found s), total_scanned = scanned,
      total_found = int (length (devices_found s)), scan_time = clock_end E - clock_start E,
      settings = st, result_timestamp = now_iso E\<rparr>"
  by (simp add: save_results_def Let_def)

lemma report_completes:
  assumes "completes E st"
  shows "devices (report E st s) = map snd (aggregate (discovered E st) []) \<and>
         total_found (report E st s) = int (length (aggregate (discovered E st) []))"
proof -
  from assms have v: "fst (validate (repr_float E) st)"
    and i: "generate_ip_range (ip_start st) (ip_end st) \<noteq> []"
    and p: "parse_ports (custom_ports st) (port_start st) (port_end st) \<noteq> []"
    and e: "pool_error E = None"
    by (simp_all add: completes_def)
  have t: "\<not> threads st > 200" using validate_threads_ok [OF v] by (simp add: validate_threads_def)
  obtain m where vm: "validate (repr_float E) st = (True, m)"
    using v by (cases "validate (repr_float E) st") auto
  define s1 where "s1 = (if parse_ports_warns (custom_ports st)
      then log WARNING (''Invalid port specification: '' @ custom_ports st)
             (s\<lparr>is_scanning := True, devices_found := []\<rparr>)
      else s\<lparr>is_scanning := True, devices_found := []\<rparr>)"
  define total_targets where "total_targets = int (length (targets_of st))"
  define s2 where "s2 = log INFO (''Scanning: ''
      @ str_int (int (length (generate_ip_range (ip_start st) (ip_end st)))) @ '' IPs * ''
      @ str_int (int (length (parse_ports (custom_ports st) (port_start st) (port_end st)))) @ '' ports = ''
      @ str_int total_targets @ '' targets'')
      (notify (''[SCAN START] '' @ str_int total_targets @ '' targets'') None None s1)"
  define res where "res = collect (stop_seen E) total_targets 0
      (map (future_result st) (completions E (targets_of st))) (0, s2)"
  have d2: "devices_found s2 = []" by (simp add: s2_def s1_def)
  have eng: "engine (scan_async E st s) = (save_results E st (fst res) (snd res))\<lparr>is_scanning := False\<rparr>"
    unfolding scan_async_def vm using t i p e
    by (simp add: Let_def s1_def s2_def total_targets_def res_def split: prod.splits)
  have dv: "devices_found (snd res) = aggregate (discovered E st) []"
    unfolding res_def collect_devices discovered_def using d2 by simp
  show ?thesis
    unfolding report_def eng by (simp add: save_results_report dv)
qed

text \<open>Within one call the targets are pairwise different, so no two units share a key.\<close>

lemma distinct_product:
  "distinct xs \<Longrightarrow> distinct ys \<Longrightarrow> distinct (concat (map (\<lambda>i. map (\<lambda>p. (i, p)) ys) xs))"
proof (induction xs)
  case Nil
  then show ?case by simp
next
  case (Cons x xs)
  have "distinct (map (\<lambda>p. (x, p)) ys)" using Cons.prems(2) by (simp add: distinct_map inj_on_def)
  moreover have "set (map (\<lambda>p. (x, p)) ys) \<inter> set (concat (map (\<lambda>i. map (\<lambda>p. (i, p)) ys) xs)) = {}"
    using Cons.prems(1) by auto
  ultimately show ?case using Cons by simp
qed

lemma generate_ip_range_distinct: "distinct (generate_ip_range s e)"
proof (cases "validate_ip s \<and> validate_ip e \<and> ip_value s \<le> ip_value e")
  case True
  then have "map ip_value (generate_ip_range s e) = [ip_value s .. ip_value e]"
    using generate_ip_range_enumerates [of s e] by simp
  then have "distinct (map ip_value (generate_ip_range s e))" by simp
  then show ?thesis by (simp add: distinct_map)
next
  case False
  then have "generate_ip_range s e = []"
    using generate_ip_range_enumerates [of s e] by auto
  then show ?thesis by simp
qed

lemma targets_distinct: "distinct (targets_of st)"
  unfolding targets_of_def
  using generate_ip_range_distinct parse_ports_sorted by (intro distinct_product) auto

lemma device_key_filter:
  "filter (\<lambda>x. device_key x = device_key d) ds = filter (\<lambda>x. dev_key x = dev_key d) ds"
  by (simp add: device_key_eq)

lemma aggregate_map_fst: "map fst (aggregate ds []) = map device_key (map snd (aggregate ds []))"
proof -
  have "fst e = device_key (snd e)" if "e \<in> set (aggregate ds [])" for e
    using aggregate_entries [of "fst e" "snd e" ds] that by simp
  then show ?thesis by simp
qed

text \<open>Storing a second record under the key of the first replaces it.\<close>

lemma aggregate_overwrites:
  "dev_key d1 = dev_key d2 \<Longrightarrow> aggregate [d1, d2] [] = [(device_key d2, d2)]"
  using device_key_eq [of d1 d2] by simp

lemma aggregate_report:
  fixes ds :: "DeviceInfo list"
  defines "devs \<equiv> map snd (aggregate ds [])"
  shows "distinct (map dev_key devs) \<and>
         dev_key ` set devs = dev_key ` set ds \<and>
         (\<forall>d \<in> set devs. d = last (filter (\<lambda>x. dev_key x = dev_key d) ds)) \<and>
         length devs = card (dev_key ` set ds)"
proof -
  have "distinct (map fst (aggregate ds []))" by (rule aggregate_distinct) simp
  then have dk: "distinct (map device_key devs)"
    unfolding devs_def by (simp only: aggregate_map_fst)
  then have "distinct devs" "inj_on device_key (set devs)" by (simp_all add: distinct_map)
  moreover have "inj_on dev_key (set devs)"
    using \<open>inj_on device_key (set devs)\<close> by (auto simp: inj_on_def device_key_eq)
  ultimately have d1: "distinct (map dev_key devs)" by (simp add: distinct_map)
  have "device_key ` set devs = device_key ` set ds"
  proof -
    have m: "map device_key devs = map fst (aggregate ds [])"
      unfolding devs_def by (simp only: aggregate_map_fst)
    have "device_key ` set devs = set (map device_key devs)" by simp
    also have "\<dots> = set (map fst (aggregate ds []))" by (simp only: m)
    also have "\<dots> = device_key ` set ds" using aggregate_keys [of ds "[]"] by simp
    finally show ?thesis .
  qed
  then have d2: "dev_key ` set devs = dev_key ` set ds"
  proof -
    assume eq: "device_key ` set devs = device_key ` set ds"
    have "dev_key x \<in> dev_key ` B" if "x \<in> A" "device_key ` A \<subseteq> device_key ` B"
      for x :: DeviceInfo and A B
    proof -
      from that obtain y where "y \<in> B" "device_key x = device_key y" by auto
      then show ?thesis using device_key_eq [of x y] by auto
    qed
    then show ?thesis using eq by (intro set_eqI iffI) (auto simp: eq)
  qed
  have d3: "\<forall>d \<in> set devs. d = last (filter (\<lambda>x. dev_key x = dev_key d) ds)"
  proof
    fix d assume "d \<in> set devs"
    then obtain k where "(k, d) \<in> set (aggregate ds [])" unfolding devs_def by auto
    from aggregate_entries [OF this] show "d = last (filter (\<lambda>x. dev_key x = dev_key d) ds)"
      unfolding device_key_filter by simp
  qed
  have "card (set (map dev_key devs)) = length (map dev_key devs)"
    using d1 by (rule distinct_card)
  then have "length devs = card (dev_key ` set devs)" by simp
  then have d4: "length devs = card (dev_key ` set ds)" using d2 by simp
  show ?thesis using d1 d2 d3 d4 by blast
qed

text \<open>
  Claim C5. When a call of \<open>scan_async\<close> reaches the end of the loop, the report
  has at most one record for each (address, port); the targets with a record are
  exactly those for which a unit taken by the loop yielded one; the record kept for
  a target is the one yielded last; and \<open>total_found\<close> is the number of records,
  which is the number of distinct targets discovered.
\<close>

theorem report_one_record_per_key:
  assumes "completes E st"
  shows "distinct (map dev_key (devices (report E st s))) \<and>
         dev_key ` set (devices (report E st s)) = dev_key ` set (discovered E st) \<and>
         (\<forall>d \<in> set (devices (report E st s)).
            d = last (filter (\<lambda>x. dev_key x = dev_key d) (discovered E st))) \<and>
         total_found (report E st s) = int (length (devices (report E st s))) \<and>
         length (devices (report E st s)) = card (dev_key ` set (discovered E st))"
proof -
  note r = report_completes [OF assms, of s]
  have dv: "devices (report E st s) = map snd (aggregate (discovered E st) [])" using r by simp
  have tf: "total_found (report E st s) = int (length (devices (report E st s)))"
    using r by simp
  show ?thesis unfolding tf unfolding dv using aggregate_report [of "discovered E st"] by simp
qed

theorem report_one_record_per_key_witness:
  "completes sample_env sample_settings \<and>
   discovered sample_env sample_settings = [new_device open_probes ''10.0.0.1'' 22 ''SSH''] \<and>
   devices (report sample_env sample_settings sample_scanner) =
     [new_device open_probes ''10.0.0.1'' 22 ''SSH''] \<and>
   total_found (report sample_env sample_settings sample_scanner) = 1 \<and>
   distinct (map dev_key (devices (report sample_env sample_settings sample_scanner)))"
proof -
  have c: "completes sample_env sample_settings" by code_simp
  have d: "discovered sample_env sample_settings = [new_device open_probes ''10.0.0.1'' 22 ''SSH'']"
    by code_simp
  have r: "devices (report sample_env sample_settings sample_scanner) =
      [new_device open_probes ''10.0.0.1'' 22 ''SSH'']"
    by code_simp
  note t = report_one_record_per_key [OF c, of sample_scanner]
  have t1: "distinct (map dev_key (devices (report sample_env sample_settings sample_scanner)))"
    using t by blast
  have t2: "total_found (report sample_env sample_settings sample_scanner) =
      int (length (devices (report sample_env sample_settings sample_scanner)))"
    using t by blast
  have t3: "total_found (report sample_env sample_settings sample_scanner) = 1"
    unfolding t2 r by simp
  show ?thesis using c d r t1 t3 by blast
qed

end
